theory Spec2Isabelle
  imports Main "HOL-Library.AList"
begin

section \<open>The request body of \<open>statePatchV3\<close>\<close>

text \<open>
  A JSON object is a list of entries in key order; member access \<open>o[k]\<close> is \<open>map_of o k\<close>,
  and \<open>None\<close> stands for \<open>undefined\<close>. Scalar members carry a \<open>jval\<close> (numbers are
  never computed with here, so an \<open>int\<close> stands for a JSON number).
\<close>

datatype jval = JNull | JBool bool | JNum int | JStr string

type_synonym 'v dict = "(string \<times> 'v) list"

record service =
  sv_image :: string
  sv_status :: string
  sv_download_progress :: "int option"

record release_state =
  services :: "service dict option"

record app_state =
  release_uuid :: "string option"
  releases :: "release_state dict option"

text \<open>
  One device entry of \<open>StatePatchV3Body\<close>: \<open>scalars\<close> holds every non-\<open>apps\<close> member
  the client sent (\<open>name\<close>, \<open>status\<close>, ..., \<open>parent_device\<close>), \<open>apps\<close> is \<open>None\<close>
  when the member is missing or null. A body entry that is null is \<open>None\<close>.
\<close>

record device_state =
  scalars :: "jval dict"
  apps :: "app_state dict option"

type_synonym StatePatchV3Body = "device_state option dict"

text \<open>
  What the handler can throw. The first three are HTTP errors (400, 401, 500);
  \<open>TypeError\<close> is the runtime's, on reading a member of undefined; \<open>FilterError\<close> is the
  API client's, which refuses to build a query whose \<open>$in\<close> has no element. The last two
  are not HTTP errors, so the handler answers them with 500 (lines 363-364).
\<close>

datatype error =
  BadRequestError | UnauthorizedError | InternalRequestError | TypeError | FilterError

definition validPatchFields :: "string list" where
  "validPatchFields =
    [''status'', ''os_version'', ''os_variant'', ''supervisor_version'',
     ''provisioning_progress'', ''provisioning_state'', ''ip_address'', ''mac_address'',
     ''api_port'', ''api_secret'', ''logs_channel'', ''memory_usage'', ''memory_total'',
     ''storage_block_device'', ''storage_usage'', ''storage_total'', ''cpu_temp'',
     ''cpu_usage'', ''cpu_id'', ''is_undervolted'', ''is_online'']"

section \<open>The store as the caller sees it\<close>

text \<open>
  Every query of the handler goes through \<open>resinApiTx\<close> with the request passed through,
  so a table below holds the rows visible in the caller's scope. A device row keeps its
  writable columns as a dictionary; a column that is absent reads as null.
\<close>

record device_row =
  d_id :: nat
  d_uuid :: string
  d_belongs_to__application :: "string list"
  d_columns :: "jval dict"

record image_row =
  i_id :: nat
  is_stored_at__image_location :: string

record release_row =
  r_id :: nat
  r_commit :: string
  r_belongs_to__application :: string

record image_install_row =
  ii_id :: nat
  ii_device :: nat
  installs__image :: nat
  is_provided_by__release :: nat
  ii_status :: string
  ii_download_progress :: "int option"

record store =
  device_tbl :: "device_row list"
  image_tbl :: "image_row list"
  release_tbl :: "release_row list"
  image_install_tbl :: "image_install_row list"

text \<open>The rows the read phase selects: \<open>$select\<close> keeps these columns only.\<close>

record device_ref =
  dr_id :: nat
  dr_uuid :: string
  dr_belongs_to__application :: "string list"

record release_ref =
  rr_id :: nat
  rr_commit :: string

record xref =
  x_devices :: "device_ref list"
  x_images :: "image_row list option"
  x_appReleases :: "release_ref list dict"

text \<open>
  The store requests issued inside the write transaction, each with what it did:
  the number of rows a patch rewrote, the row a post created, the ids a delete removed.
\<close>

datatype op =
    DevicePatch nat "jval dict" nat
  | InstallPost image_install_row
  | InstallPatch nat nat string "int option" nat
  | InstallsDelete nat "nat list" "nat list"

type_synonym tx = "store \<times> op list"

datatype tx_event = ReadTransaction | WriteTransaction

record outcome =
  response :: "error + unit"
  final :: store
  transactions :: "tx_event list"
  issued :: "op list"

section \<open>Lines 113-147: the non-null entries and what the batch references\<close>

text \<open>
  \<open>uuids = Object.keys(body).filter((uuid) => body[uuid] != null)\<close>; every later
  \<open>body[uuid]\<close> is the same lookup, so the entries are paired with their uuid once.
\<close>

definition entries :: "StatePatchV3Body \<Rightarrow> device_state dict" where
  "entries body =
     List.map_filter
       (\<lambda>uuid. case map_of body uuid of Some (Some state) \<Rightarrow> Some (uuid, state) | _ \<Rightarrow> None)
       (map fst body)"

definition uuids :: "StatePatchV3Body \<Rightarrow> string list" where
  "uuids body = map fst (entries body)"

text \<open>A JavaScript \<open>Set<string>\<close> in insertion order.\<close>

definition set_add :: "string \<Rightarrow> string list \<Rightarrow> string list" where
  "set_add x s = (if x \<in> set s then s else s @ [x])"

text \<open>\<open>appReleaseUuids[appUuid] ??= new Set()\<close>\<close>

definition ensure_app :: "string \<Rightarrow> string list dict \<Rightarrow> string list dict" where
  "ensure_app appUuid aru =
     (case map_of aru appUuid of None \<Rightarrow> AList.update appUuid [] aru | Some _ \<Rightarrow> aru)"

text \<open>\<open>appReleaseUuids[appUuid].add(c)\<close>, after the entry has been ensured.\<close>

definition add_commit :: "string \<Rightarrow> string \<Rightarrow> string list dict \<Rightarrow> string list dict" where
  "add_commit appUuid c aru =
     (case map_of aru appUuid of
        None \<Rightarrow> AList.update appUuid [c] aru
      | Some s \<Rightarrow> AList.update appUuid (set_add c s) aru)"

type_synonym collected = "string list dict \<times> string list"

fun collect_services :: "service dict \<Rightarrow> string list \<Rightarrow> string list" where
  "collect_services [] imageLocations = imageLocations"
| "collect_services ((n, sv) # rest) imageLocations =
     collect_services rest (imageLocations @ [sv_image sv])"

fun collect_releases :: "string \<Rightarrow> release_state dict \<Rightarrow> collected \<Rightarrow> collected" where
  "collect_releases appUuid [] acc = acc"
| "collect_releases appUuid ((releaseUuid, rel) # rest) (aru, imageLocations) =
     collect_releases appUuid rest
       (add_commit appUuid releaseUuid aru,
        (case services rel of
           None \<Rightarrow> imageLocations
         | Some svs \<Rightarrow> collect_services svs imageLocations))"

fun collect_apps :: "app_state dict \<Rightarrow> collected \<Rightarrow> collected" where
  "collect_apps [] acc = acc"
| "collect_apps ((appUuid, app) # rest) (aru, imageLocations) =
     (let aru1 = ensure_app appUuid aru;
          aru2 = (case release_uuid app of
                    None \<Rightarrow> aru1
                  | Some c \<Rightarrow> if c \<noteq> [] then add_commit appUuid c aru1 else aru1)
      in collect_apps rest
           (case releases app of
              None \<Rightarrow> (aru2, imageLocations)
            | Some rels \<Rightarrow> collect_releases appUuid rels (aru2, imageLocations)))"

fun collect :: "device_state dict \<Rightarrow> collected \<Rightarrow> collected" where
  "collect [] acc = acc"
| "collect ((uuid, state) # rest) acc =
     collect rest (case apps state of None \<Rightarrow> acc | Some as \<Rightarrow> collect_apps as acc)"

section \<open>Lines 158-221: the read transaction\<close>

definition get_devices :: "store \<Rightarrow> string list \<Rightarrow> device_ref list" where
  "get_devices st us =
     map (\<lambda>d. \<lparr>dr_id = d_id d, dr_uuid = d_uuid d,
               dr_belongs_to__application = d_belongs_to__application d\<rparr>)
         (filter (\<lambda>d. d_uuid d \<in> set us) (device_tbl st))"

definition get_images :: "store \<Rightarrow> string list \<Rightarrow> image_row list" where
  "get_images st locs =
     filter (\<lambda>i. is_stored_at__image_location i \<in> set locs) (image_tbl st)"

definition get_releases :: "store \<Rightarrow> string \<Rightarrow> string list \<Rightarrow> release_ref list" where
  "get_releases st appUuid commits =
     map (\<lambda>r. \<lparr>rr_id = r_id r, rr_commit = r_commit r\<rparr>)
         (filter (\<lambda>r. r_commit r \<in> set commits \<and> r_belongs_to__application r = appUuid)
                 (release_tbl st))"

text \<open>
  Lines 199-219, one query for each application in the order of \<open>appReleaseUuids\<close>.
  Unlike the image query (line 184) this one is not guarded: for an application whose
  set of commits is empty, \<open>commit: { $in: [] }\<close> makes the client throw before the
  count of line 217 is compared.
\<close>

fun resolve_releases :: "store \<Rightarrow> string list dict \<Rightarrow> error + release_ref list dict" where
  "resolve_releases st [] = Inr []"
| "resolve_releases st ((appUuid, releaseUuids) # rest) =
     (if releaseUuids = [] then Inl FilterError
      else let rs = get_releases st appUuid releaseUuids
           in if length rs \<noteq> length releaseUuids then Inl UnauthorizedError
              else (case resolve_releases st rest of
                      Inl e \<Rightarrow> Inl e
                    | Inr m \<Rightarrow> Inr ((appUuid, rs) # m)))"

definition readPhase :: "store \<Rightarrow> string list \<Rightarrow> collected \<Rightarrow> error + xref" where
  "readPhase st us c =
     (case c of (appReleaseUuids, imageLocations) \<Rightarrow>
        let devices = get_devices st us
        in if length devices \<noteq> length us then Inl UnauthorizedError
           else let images = (if imageLocations \<noteq> []
                              then Some (get_images st imageLocations) else None)
                in if imageLocations \<noteq> [] \<and>
                      length imageLocations \<noteq> length (get_images st imageLocations)
                   then Inl UnauthorizedError
                   else (case resolve_releases st appReleaseUuids of
                           Inl e \<Rightarrow> Inl e
                         | Inr appReleases \<Rightarrow>
                             Inr \<lparr>x_devices = devices, x_images = images,
                                  x_appReleases = appReleases\<rparr>))"

section \<open>Store requests of the write transaction\<close>

definition col_get :: "jval dict \<Rightarrow> string \<Rightarrow> jval" where
  "col_get cols k = (case map_of cols k of None \<Rightarrow> JNull | Some v \<Rightarrow> v)"

definition row_matches :: "jval dict \<Rightarrow> jval dict \<Rightarrow> bool" where
  "row_matches cols body = list_all (\<lambda>(k, v). col_get cols k = v) body"

definition apply_body :: "jval dict \<Rightarrow> jval dict \<Rightarrow> jval dict" where
  "apply_body body cols = fold (\<lambda>(k, v). AList.update k v) body cols"

text \<open>
  \<open>patch({resource: 'device', id, options: {$filter: {$not: body}}, body})\<close>: the rows
  with this id that do not already carry every value of the body.
\<close>

definition patch_selects :: "nat \<Rightarrow> jval dict \<Rightarrow> device_row \<Rightarrow> bool" where
  "patch_selects i body d \<longleftrightarrow> d_id d = i \<and> \<not> row_matches (d_columns d) body"

definition patch_row :: "nat \<Rightarrow> jval dict \<Rightarrow> device_row \<Rightarrow> device_row" where
  "patch_row i body d =
     (if patch_selects i body d then d\<lparr>d_columns := apply_body body (d_columns d)\<rparr> else d)"

definition patch_device :: "nat \<Rightarrow> jval dict \<Rightarrow> tx \<Rightarrow> tx" where
  "patch_device i body t =
     (case t of (st, ops) \<Rightarrow>
        (st\<lparr>device_tbl := map (patch_row i body) (device_tbl st)\<rparr>,
         ops @ [DevicePatch i body (length (filter (patch_selects i body) (device_tbl st)))]))"

record img_install =
  imageId :: nat
  releaseId :: nat
  status :: string
  downloadProgress :: "int option"

record existing_ref =
  e_id :: nat
  e_installs__image :: nat

text \<open>
  \<open>get({resource: 'image_install', $select: ['id', 'installs__image'],
  $filter: {device, installs__image: {$in: imageIds}}})\<close>
\<close>

definition get_image_installs :: "store \<Rightarrow> nat \<Rightarrow> nat list \<Rightarrow> existing_ref list" where
  "get_image_installs st deviceId imageIds =
     map (\<lambda>r. \<lparr>e_id = ii_id r, e_installs__image = installs__image r\<rparr>)
         (filter (\<lambda>r. ii_device r = deviceId \<and> installs__image r \<in> set imageIds)
                 (image_install_tbl st))"

text \<open>\<open>_.keyBy(rows, f)[k]\<close>: the last row whose key is \<open>k\<close>.\<close>

definition keyBy_get :: "existing_ref list \<Rightarrow> nat \<Rightarrow> existing_ref option" where
  "keyBy_get rows k = find (\<lambda>e. e_installs__image e = k) (rev rows)"

definition fresh_id :: "image_install_row list \<Rightarrow> nat" where
  "fresh_id tbl = Suc (fold max (map ii_id tbl) 0)"

definition install_differs :: "img_install \<Rightarrow> image_install_row \<Rightarrow> bool" where
  "install_differs c r \<longleftrightarrow>
     is_provided_by__release r \<noteq> releaseId c \<or> ii_status r \<noteq> status c \<or>
     ii_download_progress r \<noteq> downloadProgress c"

definition install_selects :: "existing_ref \<Rightarrow> img_install \<Rightarrow> image_install_row \<Rightarrow> bool" where
  "install_selects e c r \<longleftrightarrow> ii_id r = e_id e \<and> install_differs c r"

definition new_install :: "nat \<Rightarrow> nat \<Rightarrow> img_install \<Rightarrow> image_install_row" where
  "new_install i deviceId c =
     \<lparr>ii_id = i, ii_device = deviceId, installs__image = imageId c,
      is_provided_by__release = releaseId c, ii_status = status c,
      ii_download_progress = downloadProgress c\<rparr>"

definition set_install :: "img_install \<Rightarrow> image_install_row \<Rightarrow> image_install_row" where
  "set_install c r =
     r\<lparr>is_provided_by__release := releaseId c, ii_status := status c,
       ii_download_progress := downloadProgress c\<rparr>"

text \<open>
  Modelled from the spec: \<open>upsertImageInstall\<close> of \<open>./state-patch-v2\<close>, which the handler
  imports and which is not among the sources. The spec (4.3): for each candidate, if an
  existing row matches (device, image), an update instruction, only if the new
  status/progress/release actually differ; else an insert instruction. The existing row
  is the one the caller looked up; the caller selected only its id and image, so the
  comparison is made by the store on the row with that id.
\<close>

definition upsertImageInstall ::
    "tx \<Rightarrow> existing_ref option \<Rightarrow> img_install \<Rightarrow> nat \<Rightarrow> tx" where
  "upsertImageInstall t existing imgInstall deviceId =
     (case t of (st, ops) \<Rightarrow>
        (case existing of
           None \<Rightarrow>
             (let row = new_install (fresh_id (image_install_tbl st)) deviceId imgInstall
              in (st\<lparr>image_install_tbl := image_install_tbl st @ [row]\<rparr>,
                  ops @ [InstallPost row]))
         | Some e \<Rightarrow>
             (st\<lparr>image_install_tbl :=
                   map (\<lambda>r. if install_selects e imgInstall r
                             then set_install imgInstall r else r)
                       (image_install_tbl st)\<rparr>,
              ops @ [InstallPatch (e_id e) (releaseId imgInstall) (status imgInstall)
                       (downloadProgress imgInstall)
                       (length (filter (install_selects e imgInstall)
                                       (image_install_tbl st)))])))"

text \<open>
  Modelled from the spec: the rows \<open>deleteOldImageInstalls\<close> selects. The spec (4.3):
  the delete set is the existing rows for the affected device whose image id is not
  among the device's currently-claimed image ids for this request, but only considering
  images that were part of the current image-id scope being reconciled: deletion is
  scoped to exactly the images looked up in 4.2.
\<close>

definition delete_selects :: "nat list \<Rightarrow> nat \<Rightarrow> nat list \<Rightarrow> image_install_row \<Rightarrow> bool" where
  "delete_selects scope deviceId imageIds r \<longleftrightarrow>
     ii_device r = deviceId \<and> installs__image r \<notin> set imageIds \<and>
     installs__image r \<in> set scope"

text \<open>
  Modelled from the spec: \<open>deleteOldImageInstalls\<close> of \<open>./state-patch-v2\<close>, which the
  handler imports and which is not among the sources. It removes the delete set of
  spec 4.3 (section 3: a row is deleted when the device no longer reports that image as
  installed). The source (line 351) hands the function the transaction handle, the
  device id and the claimed image ids; the image-id scope of 4.3 is an argument of the
  model, \<open>scope\<close>, for which the handler's model gives the ids of the images the read
  phase looked up.
\<close>

definition deleteOldImageInstalls :: "nat list \<Rightarrow> tx \<Rightarrow> nat \<Rightarrow> nat list \<Rightarrow> tx" where
  "deleteOldImageInstalls scope t deviceId imageIds =
     (case t of (st, ops) \<Rightarrow>
        (st\<lparr>image_install_tbl :=
              filter (\<lambda>r. \<not> delete_selects scope deviceId imageIds r)
                     (image_install_tbl st)\<rparr>,
         ops @ [InstallsDelete deviceId imageIds
                  (map ii_id (filter (delete_selects scope deviceId imageIds)
                                     (image_install_tbl st)))]))"

section \<open>Lines 223-357: the write transaction\<close>

text \<open>\<open>_.pick(state, validPatchFields)\<close>\<close>

definition pick :: "jval dict \<Rightarrow> string list \<Rightarrow> jval dict" where
  "pick obj ks = List.map_filter (\<lambda>k. map_option (Pair k) (map_of obj k)) ks"

definition patch_fields :: "device_state \<Rightarrow> jval dict" where
  "patch_fields state =
     (let deviceBody = pick (scalars state) validPatchFields
      in case map_of (scalars state) ''name'' of
           None \<Rightarrow> deviceBody
         | Some JNull \<Rightarrow> deviceBody
         | Some v \<Rightarrow> AList.update ''device_name'' v deviceBody)"

text \<open>
  Lines 246-248: \<open>appReleases[userAppUuid].find((r) => r.commit ===
  apps[userAppUuid].release_uuid)\<close>. Reading \<open>find\<close> of a missing list throws, and so does
  the callback, on the first release it is given, when \<open>apps\<close> has no entry for the
  device's application; on an empty list the callback never runs.
\<close>

definition running_release ::
    "app_state dict \<Rightarrow> string \<Rightarrow> release_ref list dict \<Rightarrow> error + release_ref option" where
  "running_release as userAppUuid appReleases =
     (case map_of appReleases userAppUuid of
        None \<Rightarrow> Inl TypeError
      | Some [] \<Rightarrow> Inr None
      | Some (r # rs) \<Rightarrow>
          (case map_of as userAppUuid of
             None \<Rightarrow> Inl TypeError
           | Some app \<Rightarrow> Inr (find (\<lambda>r. Some (rr_commit r) = release_uuid app) (r # rs))))"

definition deviceBody :: "device_state \<Rightarrow> string \<Rightarrow> release_ref list dict \<Rightarrow> error + jval dict" where
  "deviceBody state userAppUuid appReleases =
     (case apps state of
        None \<Rightarrow> Inr (patch_fields state)
      | Some as \<Rightarrow>
          (case running_release as userAppUuid appReleases of
             Inl e \<Rightarrow> Inl e
           | Inr None \<Rightarrow> Inr (patch_fields state)
           | Inr (Some release) \<Rightarrow>
               Inr (AList.update ''is_running__release'' (JNum (int (rr_id release)))
                      (patch_fields state))))"

fun installs_of_services ::
    "image_row list option \<Rightarrow> release_ref \<Rightarrow> service dict \<Rightarrow> error + img_install list" where
  "installs_of_services images release [] = Inr []"
| "installs_of_services images release ((n, sv) # rest) =
     (case images of
        None \<Rightarrow> Inl TypeError
      | Some imgs \<Rightarrow>
          (case find (\<lambda>i. is_stored_at__image_location i = sv_image sv) imgs of
             None \<Rightarrow> Inl InternalRequestError
           | Some img \<Rightarrow>
               (case installs_of_services images release rest of
                  Inl e \<Rightarrow> Inl e
                | Inr others \<Rightarrow>
                    Inr (\<lparr>imageId = i_id img, releaseId = rr_id release,
                          status = sv_status sv,
                          downloadProgress = sv_download_progress sv\<rparr> # others))))"

fun installs_of_releases ::
    "xref \<Rightarrow> string \<Rightarrow> release_state dict \<Rightarrow> error + img_install list" where
  "installs_of_releases x appUuid [] = Inr []"
| "installs_of_releases x appUuid ((releaseUuid, rel) # rest) =
     (case map_of (x_appReleases x) appUuid of
        None \<Rightarrow> Inl TypeError
      | Some rs \<Rightarrow>
          (case find (\<lambda>r. rr_commit r = releaseUuid) rs of
             None \<Rightarrow> Inl InternalRequestError
           | Some release \<Rightarrow>
               (case installs_of_services (x_images x) release
                       (case services rel of None \<Rightarrow> [] | Some svs \<Rightarrow> svs) of
                  Inl e \<Rightarrow> Inl e
                | Inr a \<Rightarrow>
                    (case installs_of_releases x appUuid rest of
                       Inl e \<Rightarrow> Inl e
                     | Inr b \<Rightarrow> Inr (a @ b)))))"

fun installs_of_apps :: "xref \<Rightarrow> app_state dict \<Rightarrow> error + img_install list" where
  "installs_of_apps x [] = Inr []"
| "installs_of_apps x ((appUuid, app) # rest) =
     (case installs_of_releases x appUuid
             (case releases app of None \<Rightarrow> [] | Some rels \<Rightarrow> rels) of
        Inl e \<Rightarrow> Inl e
      | Inr a \<Rightarrow>
          (case installs_of_apps x rest of
             Inl e \<Rightarrow> Inl e
           | Inr b \<Rightarrow> Inr (a @ b)))"

text \<open>
  Lines 314-348: the existing rows are read once, keyed by image, and every claimed
  install is upserted against that reading.
\<close>

definition upsert_pass :: "nat \<Rightarrow> img_install list \<Rightarrow> tx \<Rightarrow> tx" where
  "upsert_pass deviceId imgInstalls t =
     (let existingImgInstalls =
            get_image_installs (fst t) deviceId (map imageId imgInstalls)
      in fold (\<lambda>imgInstall t'.
                 upsertImageInstall t' (keyBy_get existingImgInstalls (imageId imgInstall))
                   imgInstall deviceId)
              imgInstalls t)"

text \<open>
  The ids of the images the read phase looked up (lines 184-196): the image-id scope of
  the batch.
\<close>

definition image_scope :: "xref \<Rightarrow> nat list" where
  "image_scope x = (case x_images x of None \<Rightarrow> [] | Some images \<Rightarrow> map i_id images)"

text \<open>Lines 307-352: the upserts of a device's claims, then the delete.\<close>

definition install_step :: "nat list \<Rightarrow> nat \<Rightarrow> img_install list \<Rightarrow> tx \<Rightarrow> tx" where
  "install_step scope deviceId imgInstalls t =
     (let imageIds = map imageId imgInstalls;
          t1 = (if imageIds \<noteq> [] then upsert_pass deviceId imgInstalls t else t)
      in deleteOldImageInstalls scope t1 deviceId imageIds)"

text \<open>
  One turn of the loop over \<open>uuids\<close>. The requests of a turn are collected and awaited
  jointly; they are applied here in the order in which the source creates them.
\<close>

definition device_step :: "xref \<Rightarrow> string \<times> device_state \<Rightarrow> tx \<Rightarrow> error + tx" where
  "device_step x e t =
     (case e of (uuid, state) \<Rightarrow>
        (case find (\<lambda>d. dr_uuid d = uuid) (x_devices x) of
           None \<Rightarrow> Inl UnauthorizedError
         | Some device \<Rightarrow>
             (case dr_belongs_to__application device of
                [] \<Rightarrow> Inl TypeError
              | userAppUuid # _ \<Rightarrow>
                  (case deviceBody state userAppUuid (x_appReleases x) of
                     Inl err \<Rightarrow> Inl err
                   | Inr body \<Rightarrow>
                       (let t1 = (if body \<noteq> [] then patch_device (dr_id device) body t
                                  else t)
                        in case apps state of
                             None \<Rightarrow> Inr t1
                           | Some as \<Rightarrow>
                               (case installs_of_apps x as of
                                  Inl err \<Rightarrow> Inl err
                                | Inr imgInstalls \<Rightarrow>
                                    Inr (install_step (image_scope x) (dr_id device) imgInstalls
                                           t1)))))))"

fun writePhase :: "xref \<Rightarrow> device_state dict \<Rightarrow> tx \<Rightarrow> error + tx" where
  "writePhase x [] t = Inr t"
| "writePhase x (e # rest) t =
     (case device_step x e t of
        Inl err \<Rightarrow> Inl err
      | Inr t' \<Rightarrow> writePhase x rest t')"

text \<open>
  The handler. A transaction whose body throws is rolled back: the store is the one
  before it and none of its requests took effect.
\<close>

definition statePatchV3 :: "store \<Rightarrow> StatePatchV3Body \<Rightarrow> outcome" where
  "statePatchV3 st body =
     (if uuids body = [] then
        \<lparr>response = Inl BadRequestError, final = st, transactions = [], issued = []\<rparr>
      else
        (case readPhase st (uuids body) (collect (entries body) ([], [])) of
           Inl e \<Rightarrow>
             \<lparr>response = Inl e, final = st, transactions = [ReadTransaction], issued = []\<rparr>
         | Inr x \<Rightarrow>
             (case writePhase x (entries body) (st, []) of
                Inl e \<Rightarrow>
                  \<lparr>response = Inl e, final = st,
                   transactions = [ReadTransaction, WriteTransaction], issued = []\<rparr>
              | Inr (st', ops) \<Rightarrow>
                  \<lparr>response = Inr (), final = st',
                   transactions = [ReadTransaction, WriteTransaction], issued = ops\<rparr>)))"

section \<open>The memoizing cache: \<open>multiCache\<close>\<close>

text \<open>
  A value a memoized function resolves to, or the configured \<open>undefinedAs\<close>: \<open>undefined\<close>,
  or one of the \<open>Defined\<close> values of line 7. A number is an integer or \<open>NaN\<close>; an object is
  its identity (a reference) together with its content. Symbols and bigints are left
  out.
\<close>

datatype jsval =
    Undefined
  | JsString string
  | JsNumber int
  | JsNaN
  | JsBoolean bool
  | JsObject nat string

text \<open>
  \<open>===\<close>: \<open>NaN\<close> is not equal to anything, itself included; two objects are equal when
  they are the same object, whatever their content; every other value is compared by
  type and value.
\<close>

fun strict_eq :: "jsval \<Rightarrow> jsval \<Rightarrow> bool" where
  "strict_eq JsNaN b = False"
| "strict_eq a JsNaN = False"
| "strict_eq (JsObject r s) (JsObject r' s') = (r = r')"
| "strict_eq a b = (a = b)"

text \<open>An object with the content of \<open>v\<close> and the identity \<open>r\<close>; a primitive is itself.\<close>

fun copy_of :: "nat \<Rightarrow> jsval \<Rightarrow> jsval" where
  "copy_of r (JsObject r' s) = JsObject r s"
| "copy_of r v = v"

text \<open>
  The two tiers built by \<open>cacheManager.multiCaching\<close> hold the same entries under the
  same key, so one table stands for both; its lookup answers \<open>undefined\<close> for an absent
  key, so a stored \<open>undefined\<close> reads as a miss and only defined values are kept.
  Expiry is not modelled. \<open>calls\<close> counts the runs of the underlying function.
  The local tier keeps a clone of the value handed to it and the shared tier its
  serialised form, so what a hit hands back has the content that was stored and an
  identity of its own: \<open>next_ref\<close> is the next identity not yet in use. On a miss the
  caller gets the very value the work function resolved to.
\<close>

record cache_state =
  table :: "string \<rightharpoonup> jsval"
  calls :: nat
  next_ref :: nat

definition wrap ::
    "string \<Rightarrow> (cache_state \<Rightarrow> jsval \<times> cache_state) \<Rightarrow> cache_state
       \<Rightarrow> jsval \<times> cache_state" where
  "wrap key work c =
     (case table c key of
        Some v \<Rightarrow> (copy_of (next_ref c) v, c\<lparr>next_ref := Suc (next_ref c)\<rparr>)
      | None \<Rightarrow>
          (case work c of
             (r, c') \<Rightarrow>
               (r, if r = Undefined then c' else c'\<lparr>table := (table c')(key \<mapsto> r)\<rparr>)))"

text \<open>\<open>keyPrefix ??= `cache$${version}$${cacheKey}$`\<close>, then the normalized arguments.\<close>

definition getKey :: "string \<Rightarrow> string \<Rightarrow> ('a \<Rightarrow> string) \<Rightarrow> 'a \<Rightarrow> string" where
  "getKey version cacheKey normalizer args =
     ''cache$'' @ version @ ''$'' @ cacheKey @ ''$'' @ normalizer args"

text \<open>Line 166: \<open>valueToCache === undefined ? undefinedAs : valueToCache\<close>\<close>

definition to_cache :: "jsval \<Rightarrow> jsval \<Rightarrow> jsval" where
  "to_cache undefinedAs valueToCache =
     (if strict_eq valueToCache Undefined then undefinedAs else valueToCache)"

text \<open>Line 169: \<open>valueFromCache === undefinedAs ? undefined : valueFromCache\<close>\<close>

definition from_cache :: "jsval \<Rightarrow> jsval \<Rightarrow> jsval" where
  "from_cache undefinedAs valueFromCache =
     (if strict_eq valueFromCache undefinedAs then Undefined else valueFromCache)"

text \<open>
  Lines 158-170. \<open>undefinedAs\<close> is \<open>Undefined\<close> when the option is not given.
\<close>

definition memoizedFn ::
    "('a \<Rightarrow> jsval) \<Rightarrow> ('a \<Rightarrow> string) \<Rightarrow> jsval \<Rightarrow> 'a \<Rightarrow> cache_state
       \<Rightarrow> jsval \<times> cache_state" where
  "memoizedFn fn key_of undefinedAs args c =
     (case wrap (key_of args)
             (\<lambda>c1. (to_cache undefinedAs (fn args), c1\<lparr>calls := Suc (calls c1)\<rparr>)) c of
        (valueFromCache, c') \<Rightarrow> (from_cache undefinedAs valueFromCache, c'))"

text \<open>
  The sentinels on which \<open>===\<close> is equality: strings, booleans and the numbers other
  than \<open>NaN\<close>.
\<close>

fun primitive :: "jsval \<Rightarrow> bool" where
  "primitive (JsString s) = True"
| "primitive (JsNumber n) = True"
| "primitive (JsBoolean b) = True"
| "primitive v = False"

section \<open>Auxiliary notions for the properties\<close>

text \<open>The device patches among the requests of a transaction.\<close>

fun device_patches :: "op list \<Rightarrow> (nat \<times> jval dict \<times> nat) list" where
  "device_patches [] = []"
| "device_patches (DevicePatch i body n # ops) = (i, body, n) # device_patches ops"
| "device_patches (_ # ops) = device_patches ops"

text \<open>The fields the handler may write on a device.\<close>

definition writable_fields :: "string set" where
  "writable_fields = set validPatchFields \<union> {''device_name'', ''is_running__release''}"

text \<open>A device row as seen through its identity and one column.\<close>

definition device_view :: "string \<Rightarrow> device_row \<Rightarrow> nat \<times> string \<times> string list \<times> jval" where
  "device_view k d = (d_id d, d_uuid d, d_belongs_to__application d, col_get (d_columns d) k)"

text \<open>
  What a report references, read off the body itself: the commits an application entry
  names (a non-empty \<open>release_uuid\<close> and every key of \<open>releases\<close>), the image
  locations its services name, and both over all the entries of a batch.
\<close>

definition app_commits :: "app_state \<Rightarrow> string set" where
  "app_commits app =
     (case release_uuid app of None \<Rightarrow> {} | Some c \<Rightarrow> if c \<noteq> [] then {c} else {}) \<union>
     (case releases app of None \<Rightarrow> {} | Some rels \<Rightarrow> fst ` set rels)"

definition release_locations :: "release_state \<Rightarrow> string set" where
  "release_locations rel =
     (case services rel of None \<Rightarrow> {} | Some svs \<Rightarrow> sv_image ` snd ` set svs)"

definition app_locations :: "app_state \<Rightarrow> string set" where
  "app_locations app =
     (case releases app of
        None \<Rightarrow> {}
      | Some rels \<Rightarrow> \<Union> (release_locations ` snd ` set rels))"

definition state_apps :: "device_state \<Rightarrow> app_state dict" where
  "state_apps state = (case apps state of None \<Rightarrow> [] | Some as \<Rightarrow> as)"

definition referenced_apps :: "device_state dict \<Rightarrow> string set" where
  "referenced_apps es = \<Union> ((\<lambda>e. fst ` set (state_apps (snd e))) ` set es)"

definition referenced_commits :: "device_state dict \<Rightarrow> string \<Rightarrow> string set" where
  "referenced_commits es a =
     \<Union> ((\<lambda>e. \<Union> ((\<lambda>p. if fst p = a then app_commits (snd p) else {})
                          ` set (state_apps (snd e)))) ` set es)"

definition referenced_locations :: "device_state dict \<Rightarrow> string set" where
  "referenced_locations es =
     \<Union> ((\<lambda>e. \<Union> ((\<lambda>p. app_locations (snd p)) ` set (state_apps (snd e)))) ` set es)"

text \<open>The commits collected for an application, as a set.\<close>

definition commits_of :: "string list dict \<Rightarrow> string \<Rightarrow> string set" where
  "commits_of aru a = (case map_of aru a of None \<Rightarrow> {} | Some cs \<Rightarrow> set cs)"

text \<open>
  The device patches the write phase issues for a list of entries, as (id, body), and
  what they do to one device row when applied in that order.
\<close>

fun device_plan :: "xref \<Rightarrow> device_state dict \<Rightarrow> (nat \<times> jval dict) list" where
  "device_plan x [] = []"
| "device_plan x (e # rest) =
     (case find (\<lambda>d. dr_uuid d = fst e) (x_devices x) of
        None \<Rightarrow> []
      | Some device \<Rightarrow>
          (case dr_belongs_to__application device of
             [] \<Rightarrow> []
           | a # _ \<Rightarrow>
               (case deviceBody (snd e) a (x_appReleases x) of
                  Inl _ \<Rightarrow> []
                | Inr body \<Rightarrow> if body \<noteq> [] then [(dr_id device, body)] else [])))
     @ device_plan x rest"

definition apply_plan :: "(nat \<times> jval dict) list \<Rightarrow> device_row \<Rightarrow> device_row" where
  "apply_plan ps d = fold (\<lambda>p. patch_row (fst p) (snd p)) ps d"





text \<open>
  The keys of the data model (spec, section 3), which the schema that is not among the
  sources enforces: a device is identified by its id and by its uuid, an image by its
  location, a release by its commit within its application.
\<close>

definition unique_devices :: "store \<Rightarrow> bool" where
  "unique_devices st \<longleftrightarrow>
     distinct (map d_id (device_tbl st)) \<and> distinct (map d_uuid (device_tbl st))"

definition unique_images :: "store \<Rightarrow> bool" where
  "unique_images st \<longleftrightarrow> distinct (map is_stored_at__image_location (image_tbl st))"

definition unique_releases :: "store \<Rightarrow> bool" where
  "unique_releases st \<longleftrightarrow>
     distinct (map (\<lambda>r. (r_belongs_to__application r, r_commit r)) (release_tbl st))"

section \<open>Concrete stores and reports\<close>

text \<open>
  The store of the spec's first scenario: device \<open>d1\<close> of application \<open>a1\<close>, release
  \<open>r1\<close> (id 5) of \<open>a1\<close>, image \<open>img-loc-1\<close> (id 9); beside them a release of another
  application, a second image, and an install of that second image on \<open>d1\<close>.
\<close>

definition ex_store :: store where
  "ex_store =
     \<lparr>device_tbl =
        [\<lparr>d_id = 1, d_uuid = ''d1'', d_belongs_to__application = [''a1''],
          d_columns = [(''parent_device'', JNull)]\<rparr>],
      image_tbl =
        [\<lparr>i_id = 9, is_stored_at__image_location = ''img-loc-1''\<rparr>,
         \<lparr>i_id = 10, is_stored_at__image_location = ''img-loc-2''\<rparr>],
      release_tbl =
        [\<lparr>r_id = 5, r_commit = ''r1'', r_belongs_to__application = ''a1''\<rparr>,
         \<lparr>r_id = 6, r_commit = ''r2'', r_belongs_to__application = ''a2''\<rparr>],
      image_install_tbl =
        [\<lparr>ii_id = 1, ii_device = 1, installs__image = 10, is_provided_by__release = 5,
          ii_status = ''Running'', ii_download_progress = None\<rparr>]\<rparr>"

definition ex_service :: "string \<Rightarrow> service" where
  "ex_service loc =
     \<lparr>sv_image = loc, sv_status = ''Running'', sv_download_progress = None\<rparr>"

definition ex_state :: "string \<Rightarrow> service dict \<Rightarrow> device_state" where
  "ex_state commit svs =
     \<lparr>scalars = [(''status'', JStr ''Idle''), (''name'', JStr ''pi''),
                 (''parent_device'', JNum 3)],
      apps = Some [(''a1'', \<lparr>release_uuid = Some commit,
                             releases = Some [(''r1'', \<lparr>services = Some svs\<rparr>)]\<rparr>)]\<rparr>"

text \<open>The report of the first scenario.\<close>

definition ex_body :: StatePatchV3Body where
  "ex_body = [(''d1'', Some (ex_state ''r1'' [(''main'', ex_service ''img-loc-1'')]))]"

text \<open>The same report with the one image location named by two services.\<close>

definition dup_body :: StatePatchV3Body where
  "dup_body =
     [(''d1'', Some (ex_state ''r1'' [(''main'', ex_service ''img-loc-1''),
                                      (''side'', ex_service ''img-loc-1'')]))]"

text \<open>The same report claiming, as running release, a commit of the other application.\<close>

definition foreign_body :: StatePatchV3Body where
  "foreign_body = [(''d1'', Some (ex_state ''r2'' [(''main'', ex_service ''img-loc-1'')]))]"


text \<open>
  A report with an application for which it names no commit, followed by an application
  with a commit the store does not have.
\<close>

definition empty_app_body :: StatePatchV3Body where
  "empty_app_body =
     [(''d1'', Some \<lparr>scalars = [(''status'', JStr ''Idle'')],
                      apps = Some [(''a1'', \<lparr>release_uuid = None, releases = None\<rparr>),
                                   (''a2'', \<lparr>release_uuid = Some ''rX'',
                                            releases = None\<rparr>)]\<rparr>)]"

text \<open>The cross-reference the read phase builds for \<open>ex_body\<close> on \<open>ex_store\<close>.\<close>

definition ex_xref :: xref where
  "ex_xref =
     \<lparr>x_devices = [\<lparr>dr_id = 1, dr_uuid = ''d1'', dr_belongs_to__application = [''a1'']\<rparr>],
      x_images = Some [\<lparr>i_id = 9, is_stored_at__image_location = ''img-loc-1''\<rparr>],
      x_appReleases = [(''a1'', [\<lparr>rr_id = 5, rr_commit = ''r1''\<rparr>])]\<rparr>"




section \<open>Which errors each phase can raise\<close>

lemma set_map_filter: "set (List.map_filter f xs) = {y. \<exists>x \<in> set xs. f x = Some y}"
  by (induction xs) (auto simp: List.map_filter_simps split: option.splits)










lemma running_release_error: "running_release as a appReleases = Inl e \<Longrightarrow> e = TypeError"
  by (auto simp: running_release_def split: option.splits list.splits)

lemma deviceBody_error: "deviceBody state a appReleases = Inl e \<Longrightarrow> e = TypeError"
  by (auto simp: deviceBody_def split: option.splits sum.splits dest: running_release_error)





text \<open>
  C4. Every image location of \<open>dup_body\<close> is the location of a stored image and the
  batch resolves otherwise (\<open>ex_body\<close>, which names the location once, is accepted), yet
  the handler answers unauthorized: \<open>imageLocations\<close> is an array and holds the location
  twice, while the query returns the image once.
\<close>

theorem duplicate_image_location_rejected:
  "snd (collect (entries dup_body) ([], [])) = [''img-loc-1'', ''img-loc-1''] \<and>
   ''img-loc-1'' \<in> is_stored_at__image_location ` set (image_tbl ex_store) \<and>
   response (statePatchV3 ex_store dup_body) = Inl UnauthorizedError \<and>
   response (statePatchV3 ex_store ex_body) = Inr ()"
  by code_simp

section \<open>The sentinel of the memoizing cache\<close>

lemma strict_eq_Undefined [simp]: "strict_eq v Undefined \<longleftrightarrow> v = Undefined"
  by (cases v) simp_all

lemma strict_eq_primitive: "primitive s \<Longrightarrow> strict_eq v s \<longleftrightarrow> v = s"
  by (cases s; cases v) simp_all

lemma copy_of_primitive: "primitive v \<Longrightarrow> copy_of r v = v"
  by (cases v) simp_all

lemma memoizedFn_hit:
  "table c (key_of args) = Some v \<Longrightarrow>
     memoizedFn fn key_of undefinedAs args c =
       (from_cache undefinedAs (copy_of (next_ref c) v), c\<lparr>next_ref := Suc (next_ref c)\<rparr>)"
  by (simp add: memoizedFn_def wrap_def)

lemma memoizedFn_miss:
  "table c (key_of args) = None \<Longrightarrow> undefinedAs \<noteq> Undefined \<Longrightarrow>
     memoizedFn fn key_of undefinedAs args c =
       (from_cache undefinedAs (to_cache undefinedAs (fn args)),
        c\<lparr>calls := Suc (calls c),
          table := (table c)(key_of args \<mapsto> to_cache undefinedAs (fn args))\<rparr>)"
  by (simp add: memoizedFn_def wrap_def to_cache_def)

text \<open>
  For a sentinel that is a string, a boolean or a number other than \<open>NaN\<close>, and the
  entry of the key either absent or the one an earlier call for these arguments stored:
  a result of undefined is stored as the sentinel, and the caller gets undefined back
  on this call and from the entry; a primitive result other than the sentinel is handed
  to the caller as it is.
\<close>

lemma primitive_sentinel_round_trip:
  assumes "primitive s"
    and "table c (key_of args) = None \<or>
         table c (key_of args) = Some (to_cache s (fn args))"
  shows "(fn args = Undefined \<longrightarrow>
            table (snd (memoizedFn fn key_of s args c)) (key_of args) = Some s \<and>
            fst (memoizedFn fn key_of s args c) = Undefined) \<and>
         (primitive (fn args) \<and> fn args \<noteq> s \<longrightarrow>
            fst (memoizedFn fn key_of s args c) = fn args) \<and>
         table (snd (memoizedFn fn key_of s args c)) (key_of args) \<noteq> None"
proof (cases "table c (key_of args)")
  case None
  from assms(1) have s: "s \<noteq> Undefined" by (cases s) simp_all
  show ?thesis
    using assms(1) s None
    by (auto simp: memoizedFn_miss from_cache_def to_cache_def strict_eq_primitive)
next
  case (Some v)
  with assms(2) have v: "v = to_cache s (fn args)" by simp
  show ?thesis
    using assms(1) Some
    by (auto simp: memoizedFn_hit v from_cache_def to_cache_def strict_eq_primitive
                   copy_of_primitive)
qed

text \<open>
  C9. The sentinel is compared with \<open>===\<close> (line 169). With an object as \<open>undefinedAs\<close>
  and a function that resolves to undefined, the first call stores the sentinel and
  answers undefined, the value at hand being the sentinel itself; the second call is
  answered from the cache with a copy of the sentinel, which is not the same object:
  the caller gets the sentinel's content instead of undefined. With \<open>NaN\<close> as
  \<open>undefinedAs\<close> the first call already answers \<open>NaN\<close>.
\<close>

theorem object_sentinel_not_converted:
  "(let fn = (\<lambda>n::nat. Undefined);
        key_of = getKey ''1.0'' ''lookup'' (\<lambda>n. replicate n CHR ''x'');
        s = JsObject 0 ''none'';
        c0 = \<lparr>table = Map.empty, calls = 0, next_ref = 1\<rparr>;
        r1 = memoizedFn fn key_of s 0 c0;
        r2 = memoizedFn fn key_of s 0 (snd r1)
    in fst r1 = Undefined \<and> table (snd r1) (key_of 0) = Some s \<and>
       fst r2 = JsObject 1 ''none'' \<and> calls (snd r2) = 1 \<and>
       fst (memoizedFn fn key_of JsNaN 0 c0) = JsNaN)"
  by (simp add: Let_def memoizedFn_def wrap_def to_cache_def from_cache_def getKey_def)

section \<open>What one turn of the write loop does\<close>

lemma device_step_InrE:
  assumes "device_step x (uuid, state) t = Inr t'"
  obtains device a rest body where
    "find (\<lambda>d. dr_uuid d = uuid) (x_devices x) = Some device"
    "dr_belongs_to__application device = a # rest"
    "deviceBody state a (x_appReleases x) = Inr body"
    "(apps state = None \<and>
        t' = (if body \<noteq> [] then patch_device (dr_id device) body t else t)) \<or>
     (\<exists>as imgInstalls. apps state = Some as \<and> installs_of_apps x as = Inr imgInstalls \<and>
        t' = install_step (image_scope x) (dr_id device) imgInstalls
               (if body \<noteq> [] then patch_device (dr_id device) body t else t))"
  using assms
  by (auto simp: device_step_def Let_def
           split: option.splits list.splits sum.splits)

lemma upsertImageInstall_frame:
  "device_tbl (fst (upsertImageInstall t ex c d)) = device_tbl (fst t) \<and>
   image_tbl (fst (upsertImageInstall t ex c d)) = image_tbl (fst t) \<and>
   release_tbl (fst (upsertImageInstall t ex c d)) = release_tbl (fst t) \<and>
   device_patches (snd (upsertImageInstall t ex c d)) = device_patches (snd t)"
proof -
  have dp: "\<And>ops o'. device_patches [o'] = [] \<Longrightarrow>
              device_patches (ops @ [o']) = device_patches ops"
    subgoal for ops o' by (induction ops rule: device_patches.induct) auto
    done
  show ?thesis
    by (cases t; cases ex) (auto simp: upsertImageInstall_def Let_def dp)
qed

lemma device_patches_append:
  "device_patches (ops @ ops') = device_patches ops @ device_patches ops'"
  by (induction ops rule: device_patches.induct) auto

lemma fold_upsert_frame:
  "device_tbl (fst (fold (\<lambda>c t'. upsertImageInstall t' (g c) c d) cs t)) = device_tbl (fst t) \<and>
   image_tbl (fst (fold (\<lambda>c t'. upsertImageInstall t' (g c) c d) cs t)) = image_tbl (fst t) \<and>
   release_tbl (fst (fold (\<lambda>c t'. upsertImageInstall t' (g c) c d) cs t)) = release_tbl (fst t) \<and>
   device_patches (snd (fold (\<lambda>c t'. upsertImageInstall t' (g c) c d) cs t))
     = device_patches (snd t)"
  by (induction cs arbitrary: t) (simp_all add: upsertImageInstall_frame)

lemma deleteOldImageInstalls_frame:
  "device_tbl (fst (deleteOldImageInstalls sc t d ids)) = device_tbl (fst t) \<and>
   image_tbl (fst (deleteOldImageInstalls sc t d ids)) = image_tbl (fst t) \<and>
   release_tbl (fst (deleteOldImageInstalls sc t d ids)) = release_tbl (fst t) \<and>
   device_patches (snd (deleteOldImageInstalls sc t d ids)) = device_patches (snd t)"
  by (cases t) (simp add: deleteOldImageInstalls_def device_patches_append)

lemma install_step_frame:
  "device_tbl (fst (install_step sc d cs t)) = device_tbl (fst t) \<and>
   image_tbl (fst (install_step sc d cs t)) = image_tbl (fst t) \<and>
   release_tbl (fst (install_step sc d cs t)) = release_tbl (fst t) \<and>
   device_patches (snd (install_step sc d cs t)) = device_patches (snd t)"
  by (simp add: install_step_def Let_def upsert_pass_def deleteOldImageInstalls_frame
                fold_upsert_frame)

lemma patch_device_frame:
  "device_tbl (fst (patch_device i body t)) = map (patch_row i body) (device_tbl (fst t)) \<and>
   image_tbl (fst (patch_device i body t)) = image_tbl (fst t) \<and>
   release_tbl (fst (patch_device i body t)) = release_tbl (fst t) \<and>
   image_install_tbl (fst (patch_device i body t)) = image_install_tbl (fst t) \<and>
   device_patches (snd (patch_device i body t)) =
     device_patches (snd t) @
       [(i, body, length (filter (patch_selects i body) (device_tbl (fst t))))]"
  by (cases t) (simp add: patch_device_def device_patches_append)

section \<open>The keys of a device patch\<close>

lemma pick_keys: "fst ` set (pick obj ks) \<subseteq> set ks"
  by (auto simp: pick_def set_map_filter)

lemma pick_distinct: "distinct ks \<Longrightarrow> distinct (map fst (pick obj ks))"
  by (induction ks) (auto simp: pick_def List.map_filter_simps set_map_filter split: option.splits)

lemma distinct_validPatchFields: "distinct validPatchFields"
  by (simp add: validPatchFields_def)

lemma special_fields_not_valid:
  "''device_name'' \<notin> set validPatchFields" "''is_running__release'' \<notin> set validPatchFields"
  "''parent_device'' \<notin> set validPatchFields"
  by (simp_all add: validPatchFields_def)

lemma parent_device_not_writable: "''parent_device'' \<notin> writable_fields"
  by (simp add: writable_fields_def special_fields_not_valid)

lemma patch_fields_keys:
  "fst ` set (patch_fields state) \<subseteq> set validPatchFields \<union> {''device_name''}"
  using pick_keys [of "scalars state" validPatchFields]
  by (auto simp: patch_fields_def Let_def dom_update split: option.splits jval.splits)

lemma patch_fields_distinct: "distinct (map fst (patch_fields state))"
  by (auto simp: patch_fields_def Let_def distinct_update pick_distinct distinct_validPatchFields
           split: option.splits jval.splits)

lemma map_of_pick: "map_of (pick obj ks) k = (if k \<in> set ks then map_of obj k else None)"
  by (induction ks) (auto simp: pick_def List.map_filter_simps split: option.splits)

lemma patch_fields_device_name:
  "map_of (patch_fields state) ''device_name'' =
     (case map_of (scalars state) ''name'' of
        None \<Rightarrow> None
      | Some v \<Rightarrow> if v = JNull then None else Some v)"
  by (auto simp: patch_fields_def Let_def update_conv' map_of_pick special_fields_not_valid
           split: option.splits jval.splits)

lemma deviceBody_cases:
  assumes "deviceBody state a ar = Inr body"
  shows "body = patch_fields state \<or>
         (\<exists>v. body = AList.update ''is_running__release'' v (patch_fields state))"
  using assms by (auto simp: deviceBody_def split: option.splits sum.splits)

lemma deviceBody_keys:
  assumes "deviceBody state a ar = Inr body"
  shows "fst ` set body \<subseteq> writable_fields"
proof -
  have 1: "fst ` set (patch_fields state) \<subseteq> writable_fields"
    using patch_fields_keys [of state] by (auto simp: writable_fields_def)
  have 2: "fst ` set (AList.update ''is_running__release'' v (patch_fields state))
             \<subseteq> writable_fields" for v
    unfolding dom_update using 1 by (simp add: writable_fields_def)
  from deviceBody_cases [OF assms] show ?thesis
  proof
    assume "body = patch_fields state"
    then show ?thesis using 1 by simp
  next
    assume "\<exists>v. body = AList.update ''is_running__release'' v (patch_fields state)"
    then obtain v where "body = AList.update ''is_running__release'' v (patch_fields state)" ..
    then show ?thesis using 2 [of v] by simp
  qed
qed

lemma deviceBody_distinct:
  assumes "deviceBody state a ar = Inr body"
  shows "distinct (map fst body)"
  using assms
  by (auto simp: deviceBody_def distinct_update patch_fields_distinct
           split: option.splits sum.splits)

lemma deviceBody_device_name:
  assumes "deviceBody state a ar = Inr body"
  shows "map_of body ''device_name'' =
           (case map_of (scalars state) ''name'' of
              None \<Rightarrow> None
            | Some v \<Rightarrow> if v = JNull then None else Some v)"
  using assms
  by (auto simp: deviceBody_def update_conv' patch_fields_device_name
           split: option.splits sum.splits)

section \<open>The frame of the device patches\<close>

lemma map_of_apply_body_other:
  "k \<notin> fst ` set body \<Longrightarrow> map_of (apply_body body cols) k = map_of cols k"
  unfolding apply_body_def
  by (induction body arbitrary: cols) (auto simp: update_conv')

lemma device_view_patch_row:
  "k \<notin> fst ` set body \<Longrightarrow> device_view k (patch_row i body d) = device_view k d"
  by (simp add: patch_row_def device_view_def col_get_def map_of_apply_body_other)

lemma device_step_frame:
  assumes "device_step x e t = Inr t'"
  shows "(\<forall>k. k \<notin> writable_fields \<longrightarrow>
            map (device_view k) (device_tbl (fst t')) = map (device_view k) (device_tbl (fst t))) \<and>
         (\<forall>p \<in> set (device_patches (snd t')).
            p \<in> set (device_patches (snd t)) \<or> fst ` set (fst (snd p)) \<subseteq> writable_fields)"
proof -
  obtain uuid state where e: "e = (uuid, state)" by (cases e)
  from assms [unfolded e] obtain device a rest body where
    "find (\<lambda>d. dr_uuid d = uuid) (x_devices x) = Some device" and
    "dr_belongs_to__application device = a # rest" and
    b: "deviceBody state a (x_appReleases x) = Inr body" and
    t': "(apps state = None \<and>
            t' = (if body \<noteq> [] then patch_device (dr_id device) body t else t)) \<or>
         (\<exists>as imgInstalls. apps state = Some as \<and> installs_of_apps x as = Inr imgInstalls \<and>
            t' = install_step (image_scope x) (dr_id device) imgInstalls
                   (if body \<noteq> [] then patch_device (dr_id device) body t else t))"
    by (rule device_step_InrE)
  let ?t1 = "if body \<noteq> [] then patch_device (dr_id device) body t else t"
  have k: "fst ` set body \<subseteq> writable_fields" by (rule deviceBody_keys [OF b])
  have 1: "device_tbl (fst t') = device_tbl (fst ?t1)"
          "device_patches (snd t') = device_patches (snd ?t1)"
    using t' by (auto simp: install_step_frame)
  have 2: "k' \<notin> writable_fields \<Longrightarrow>
             map (device_view k') (device_tbl (fst ?t1)) = map (device_view k') (device_tbl (fst t))"
    for k'
  proof -
    assume "k' \<notin> writable_fields"
    with k have "k' \<notin> fst ` set body" by blast
    then show ?thesis by (simp add: patch_device_frame device_view_patch_row)
  qed
  have 3: "\<forall>p \<in> set (device_patches (snd ?t1)).
             p \<in> set (device_patches (snd t)) \<or> fst ` set (fst (snd p)) \<subseteq> writable_fields"
    using k by (auto simp: patch_device_frame)
  show ?thesis unfolding 1 using 2 3 by blast
qed

lemma writePhase_frame:
  assumes "writePhase x es t = Inr t'"
  shows "(\<forall>k. k \<notin> writable_fields \<longrightarrow>
            map (device_view k) (device_tbl (fst t')) = map (device_view k) (device_tbl (fst t))) \<and>
         (\<forall>p \<in> set (device_patches (snd t')).
            p \<in> set (device_patches (snd t)) \<or> fst ` set (fst (snd p)) \<subseteq> writable_fields)"
  using assms
proof (induction es arbitrary: t)
  case Nil
  then show ?case by simp
next
  case (Cons e es)
  then obtain t1 where s: "device_step x e t = Inr t1" and w: "writePhase x es t1 = Inr t'"
    by (auto split: sum.splits)
  from device_step_frame [OF s] Cons.IH [OF w] show ?case by (metis (no_types, lifting))
qed

text \<open>
  C10. Every device patch the handler issues carries only fields of the allow-list,
  \<open>device_name\<close> and \<open>is_running__release\<close>, and never \<open>parent_device\<close>; whatever the
  outcome, every device row keeps its identity and every column outside those fields, so
  \<open>parent_device\<close> in particular; and \<open>device_name\<close> is in the patch exactly when the
  report has a non-null \<open>name\<close>, with that value.
\<close>

theorem implicit_field_frame:
  "(\<forall>p \<in> set (device_patches (issued (statePatchV3 st body))).
      fst ` set (fst (snd p)) \<subseteq> writable_fields \<and>
      ''parent_device'' \<notin> fst ` set (fst (snd p))) \<and>
   (\<forall>k. k \<notin> writable_fields \<longrightarrow>
      map (device_view k) (device_tbl (final (statePatchV3 st body)))
        = map (device_view k) (device_tbl st)) \<and>
   ''parent_device'' \<notin> writable_fields \<and>
   (\<forall>state a ar b. deviceBody state a ar = Inr b \<longrightarrow>
      map_of b ''device_name'' =
        (case map_of (scalars state) ''name'' of
           None \<Rightarrow> None
         | Some v \<Rightarrow> if v = JNull then None else Some v))"
proof -
  have w: "(\<forall>p \<in> set (device_patches (issued (statePatchV3 st body))).
              fst ` set (fst (snd p)) \<subseteq> writable_fields) \<and>
           (\<forall>k. k \<notin> writable_fields \<longrightarrow>
              map (device_view k) (device_tbl (final (statePatchV3 st body)))
                = map (device_view k) (device_tbl st))"
  proof (cases "uuids body = []")
    case True
    then show ?thesis by (simp add: statePatchV3_def)
  next
    case False
    show ?thesis
    proof (cases "readPhase st (uuids body) (collect (entries body) ([], []))")
      case (Inl e)
      with False show ?thesis by (simp add: statePatchV3_def)
    next
      case (Inr x)
      show ?thesis
      proof (cases "writePhase x (entries body) (st, [])")
        case (Inl e)
        with False Inr show ?thesis by (simp add: statePatchV3_def)
      next
        case r: (Inr t')
        obtain st' ops where t': "t' = (st', ops)" by (cases t')
        from writePhase_frame [OF r] False Inr r t' show ?thesis
          by (simp add: statePatchV3_def)
      qed
    qed
  qed
  then have "\<forall>p \<in> set (device_patches (issued (statePatchV3 st body))).
               ''parent_device'' \<notin> fst ` set (fst (snd p))"
    using parent_device_not_writable by blast
  with w show ?thesis
    using parent_device_not_writable deviceBody_device_name by blast
qed

theorem implicit_field_frame_witness:
  "device_patches (issued (statePatchV3 ex_store ex_body)) =
     [(1, [(''status'', JStr ''Idle''), (''device_name'', JStr ''pi''),
           (''is_running__release'', JNum 5)], 1)] \<and>
   map (device_view ''parent_device'') (device_tbl (final (statePatchV3 ex_store ex_body)))
     = [(1, ''d1'', [''a1''], JNull)] \<and>
   ''parent_device'' \<notin> writable_fields"
proof -
  have i: "device_patches (issued (statePatchV3 ex_store ex_body)) =
     [(1, [(''status'', JStr ''Idle''), (''device_name'', JStr ''pi''),
           (''is_running__release'', JNum 5)], 1)]"
    by code_simp
  have v: "map (device_view ''parent_device'') (device_tbl ex_store) = [(1, ''d1'', [''a1''], JNull)]"
    by code_simp
  from implicit_field_frame [of ex_store ex_body] i v show ?thesis by simp
qed

section \<open>What the normalizer collects\<close>

lemma keys_ensure_app: "fst ` set (ensure_app a aru) = insert a (fst ` set aru)"
  by (auto simp: ensure_app_def dom_update split: option.splits
           dest: map_of_SomeD intro: rev_image_eqI)

lemma commits_of_ensure_app: "commits_of (ensure_app a aru) a' = commits_of aru a'"
  by (auto simp: ensure_app_def commits_of_def update_conv' split: option.splits)

lemma keys_add_commit: "fst ` set (add_commit a c aru) = insert a (fst ` set aru)"
  by (auto simp: add_commit_def dom_update split: option.splits)

lemma commits_of_add_commit:
  "commits_of (add_commit a c aru) a' =
     (if a' = a then insert c (commits_of aru a) else commits_of aru a')"
  by (auto simp: add_commit_def commits_of_def update_conv' set_add_def split: option.splits)

lemma set_collect_services:
  "set (collect_services svs locs) = set locs \<union> sv_image ` snd ` set svs"
  by (induction svs locs rule: collect_services.induct) auto

lemma collect_releases_spec:
  "fst ` set (fst (collect_releases a rels (aru, locs))) =
     fst ` set aru \<union> (if rels = [] then {} else {a}) \<and>
   (\<forall>a'. commits_of (fst (collect_releases a rels (aru, locs))) a' =
          commits_of aru a' \<union> (if a' = a then fst ` set rels else {})) \<and>
   set (snd (collect_releases a rels (aru, locs))) =
     set locs \<union> \<Union> (release_locations ` snd ` set rels)"
proof (induction rels arbitrary: aru locs)
  case Nil
  then show ?case by simp
next
  case (Cons p rels)
  obtain ru rel where p: "p = (ru, rel)" by (cases p)
  show ?case
    unfolding p collect_releases.simps
    by (simp only: Cons.IH)
       (auto simp: keys_add_commit commits_of_add_commit set_collect_services
                   release_locations_def
             split: option.splits)
qed

lemma collect_apps_spec:
  "fst ` set (fst (collect_apps as (aru, locs))) = fst ` set aru \<union> fst ` set as \<and>
   (\<forall>a. commits_of (fst (collect_apps as (aru, locs))) a =
          commits_of aru a \<union>
          \<Union> ((\<lambda>p. if fst p = a then app_commits (snd p) else {}) ` set as)) \<and>
   set (snd (collect_apps as (aru, locs))) =
     set locs \<union> \<Union> ((\<lambda>p. app_locations (snd p)) ` set as)"
proof (induction as arbitrary: aru locs)
  case Nil
  then show ?case by simp
next
  case (Cons p as)
  obtain a app where p: "p = (a, app)" by (cases p)
  let ?aru2 = "case release_uuid app of
                 None \<Rightarrow> ensure_app a aru
               | Some c \<Rightarrow> if c \<noteq> [] then add_commit a c (ensure_app a aru)
                           else ensure_app a aru"
  have k2: "fst ` set ?aru2 = insert a (fst ` set aru)"
    by (auto simp: keys_ensure_app keys_add_commit split: option.splits)
  have c2: "commits_of ?aru2 a' =
              commits_of aru a' \<union>
              (if a' = a then (case release_uuid app of
                                None \<Rightarrow> {}
                              | Some c \<Rightarrow> if c \<noteq> [] then {c} else {}) else {})" for a'
    by (auto simp: commits_of_ensure_app commits_of_add_commit split: option.splits)
  show ?case
  proof (cases "releases app")
    case None
    then show ?thesis
      unfolding p collect_apps.simps Let_def
      by (simp only: Cons.IH option.case k2 c2)
         (auto simp: app_commits_def app_locations_def split: option.splits)
  next
    case (Some rels)
    obtain aru3 locs3 where r: "collect_releases a rels (?aru2, locs) = (aru3, locs3)"
      by (cases "collect_releases a rels (?aru2, locs)")
    from collect_releases_spec [of a rels ?aru2 locs, unfolded r fst_conv snd_conv k2]
    have k3: "fst ` set aru3 = insert a (fst ` set aru)"
      and c3: "\<And>a'. commits_of aru3 a' =
                 commits_of ?aru2 a' \<union> (if a' = a then fst ` set rels else {})"
      and l3: "set locs3 = set locs \<union> \<Union> (release_locations ` snd ` set rels)"
      by auto
    show ?thesis
      unfolding p collect_apps.simps Let_def Some option.case r
      by (simp only: Cons.IH k3 c3 l3 c2)
         (auto simp: app_commits_def app_locations_def Some split: option.splits)
  qed
qed

lemma collect_spec:
  "fst ` set (fst (collect es (aru, locs))) = fst ` set aru \<union> referenced_apps es \<and>
   (\<forall>a. commits_of (fst (collect es (aru, locs))) a =
          commits_of aru a \<union> referenced_commits es a) \<and>
   set (snd (collect es (aru, locs))) = set locs \<union> referenced_locations es"
proof (induction es arbitrary: aru locs)
  case Nil
  then show ?case
    by (simp add: referenced_apps_def referenced_commits_def referenced_locations_def)
next
  case (Cons e es)
  obtain u state where e: "e = (u, state)" by (cases e)
  show ?case
  proof (cases "apps state")
    case None
    then show ?thesis
      unfolding e collect.simps
      by (simp only: Cons.IH option.case)
         (auto simp: referenced_apps_def referenced_commits_def referenced_locations_def
                     state_apps_def)
  next
    case (Some as)
    obtain aru1 locs1 where r: "collect_apps as (aru, locs) = (aru1, locs1)"
      by (cases "collect_apps as (aru, locs)")
    from collect_apps_spec [of as aru locs, unfolded r fst_conv snd_conv]
    have k1: "fst ` set aru1 = fst ` set aru \<union> fst ` set as"
      and c1: "\<And>a. commits_of aru1 a =
                 commits_of aru a \<union>
                 \<Union> ((\<lambda>p. if fst p = a then app_commits (snd p) else {}) ` set as)"
      and l1: "set locs1 = set locs \<union> \<Union> ((\<lambda>p. app_locations (snd p)) ` set as)"
      by auto
    show ?thesis
      unfolding e collect.simps Some option.case r
      by (simp only: Cons.IH k1 c1 l1)
         (auto simp: referenced_apps_def referenced_commits_def referenced_locations_def
                     state_apps_def Some)
  qed
qed

lemma collect_from_empty:
  assumes "collect es ([], []) = (aru, locs)"
  shows "fst ` set aru = referenced_apps es"
    and "commits_of aru a = referenced_commits es a"
    and "set locs = referenced_locations es"
  using collect_spec [of es "[]" "[]", unfolded assms]
  by (simp_all add: commits_of_def)







section \<open>What a passed count check guarantees\<close>

lemma count_check:
  assumes "distinct (map key rows)"
  shows "length (filter (\<lambda>r. key r \<in> set ks) rows) = length ks \<longleftrightarrow>
           distinct ks \<and> set ks \<subseteq> key ` set rows"
proof -
  let ?F = "filter (\<lambda>r. key r \<in> set ks) rows"
  have d: "distinct (map key ?F)" using assms by (rule distinct_map_filter)
  have s: "key ` set ?F = set ks \<inter> key ` set rows" by auto
  have l: "length ?F = card (set ks \<inter> key ` set rows)"
    using distinct_card [OF d] s by simp
  have le: "card (set ks \<inter> key ` set rows) \<le> card (set ks)"
    by (rule card_mono) auto
  show ?thesis
  proof
    assume e: "length ?F = length ks"
    with l le card_length [of ks] have c: "card (set ks) = length ks"
      and i: "card (set ks \<inter> key ` set rows) = card (set ks)" by auto
    from c have "distinct ks" by (rule card_distinct)
    moreover from i have "set ks \<inter> key ` set rows = set ks"
      by (intro card_subset_eq) auto
    ultimately show "distinct ks \<and> set ks \<subseteq> key ` set rows" by blast
  next
    assume a: "distinct ks \<and> set ks \<subseteq> key ` set rows"
    then have "set ks \<inter> key ` set rows = set ks" by blast
    with l a show "length ?F = length ks" by (simp add: distinct_card)
  qed
qed

lemma devices_count:
  assumes "unique_devices st"
  shows "length (get_devices st us) = length us \<longleftrightarrow>
           distinct us \<and> set us \<subseteq> d_uuid ` set (device_tbl st)"
  using count_check [of d_uuid "device_tbl st" us] assms
  by (simp add: get_devices_def unique_devices_def)

lemma images_count:
  assumes "unique_images st"
  shows "length (get_images st locs) = length locs \<longleftrightarrow>
           distinct locs \<and> set locs \<subseteq> is_stored_at__image_location ` set (image_tbl st)"
  using count_check [of is_stored_at__image_location "image_tbl st" locs] assms
  by (simp add: get_images_def unique_images_def)

lemma releases_count:
  assumes "unique_releases st"
  shows "length (get_releases st a cs) = length cs \<longleftrightarrow>
           distinct cs \<and>
           set cs \<subseteq> r_commit ` {r \<in> set (release_tbl st). r_belongs_to__application r = a}"
proof -
  let ?rows = "filter (\<lambda>r. r_belongs_to__application r = a) (release_tbl st)"
  have "distinct (map (\<lambda>r. (r_belongs_to__application r, r_commit r)) ?rows)"
    using assms unfolding unique_releases_def by (rule distinct_map_filter)
  then have d: "distinct (map r_commit ?rows)"
    by (auto simp: distinct_map inj_on_def)
  have f: "filter (\<lambda>r. r_commit r \<in> set cs \<and> r_belongs_to__application r = a) (release_tbl st)
             = filter (\<lambda>r. r_commit r \<in> set cs) ?rows"
    by (simp add: conj_commute)
  show ?thesis
    using count_check [OF d, of cs] by (simp add: get_releases_def f)
qed

lemma set_get_releases:
  "set (get_releases st a cs) =
     (\<lambda>r. \<lparr>rr_id = r_id r, rr_commit = r_commit r\<rparr>) `
       {r \<in> set (release_tbl st). r_commit r \<in> set cs \<and> r_belongs_to__application r = a}"
  by (auto simp: get_releases_def)

lemma resolve_releases_Inr:
  "resolve_releases st aru = Inr m \<longleftrightarrow>
     m = map (\<lambda>p. (fst p, get_releases st (fst p) (snd p))) aru \<and>
     (\<forall>p \<in> set aru. snd p \<noteq> [] \<and>
                      length (get_releases st (fst p) (snd p)) = length (snd p))"
proof (induction aru arbitrary: m)
  case Nil
  then show ?case by auto
next
  case (Cons p aru)
  obtain a cs where p: "p = (a, cs)" by (cases p)
  show ?case
  proof (cases "resolve_releases st aru")
    case (Inl e)
    with Cons.IH have "\<not> (\<forall>p \<in> set aru. snd p \<noteq> [] \<and>
                          length (get_releases st (fst p) (snd p)) = length (snd p))"
      by auto
    with Inl show ?thesis by (auto simp: p Let_def)
  next
    case (Inr m')
    with Cons.IH [of m'] show ?thesis by (auto simp: p Let_def)
  qed
qed

lemma map_of_resolved:
  "map_of (map (\<lambda>p. (fst p, get_releases st (fst p) (snd p))) aru) a =
     map_option (get_releases st a) (map_of aru a)"
  by (induction aru) auto

lemma readPhase_Inr:
  "readPhase st us (aru, locs) = Inr x \<longleftrightarrow>
     length (get_devices st us) = length us \<and>
     (locs \<noteq> [] \<longrightarrow> length (get_images st locs) = length locs) \<and>
     (\<forall>p \<in> set aru. snd p \<noteq> [] \<and>
                      length (get_releases st (fst p) (snd p)) = length (snd p)) \<and>
     x = \<lparr>x_devices = get_devices st us,
          x_images = (if locs \<noteq> [] then Some (get_images st locs) else None),
          x_appReleases = map (\<lambda>p. (fst p, get_releases st (fst p) (snd p))) aru\<rparr>"
proof (cases "resolve_releases st aru")
  case (Inl e)
  then have "\<not> (\<forall>p \<in> set aru. snd p \<noteq> [] \<and>
                      length (get_releases st (fst p) (snd p)) = length (snd p))"
    using resolve_releases_Inr [of st aru] by auto
  with Inl show ?thesis by (auto simp: readPhase_def Let_def)
next
  case (Inr m)
  then show ?thesis
    using resolve_releases_Inr [of st aru m] by (auto simp: readPhase_def Let_def)
qed

section \<open>The internal fault cannot be reached after the read phase\<close>

lemma find_None_iff_key: "find (\<lambda>r. key r = k) rows = None \<longleftrightarrow> k \<notin> key ` set rows"
  by (auto simp: find_None_iff)

lemma installs_of_services_no_internal:
  assumes "\<forall>imgs. images = Some imgs \<longrightarrow>
             sv_image ` snd ` set svs \<subseteq> is_stored_at__image_location ` set imgs"
  shows "installs_of_services images release svs \<noteq> Inl InternalRequestError"
  using assms
proof (induction svs)
  case Nil
  then show ?case by simp
next
  case (Cons p svs)
  obtain n sv where p: "p = (n, sv)" by (cases p)
  show ?case
  proof (cases images)
    case None
    then show ?thesis by (simp add: p)
  next
    case (Some imgs)
    with Cons.prems have "sv_image sv \<in> is_stored_at__image_location ` set imgs"
      by (simp add: p)
    then have "find (\<lambda>i. is_stored_at__image_location i = sv_image sv) imgs \<noteq> None"
      by (simp add: find_None_iff_key)
    moreover have "installs_of_services images release svs \<noteq> Inl InternalRequestError"
      using Cons by simp
    ultimately show ?thesis
      by (auto simp: p Some split: option.splits sum.splits)
  qed
qed

lemma installs_of_releases_no_internal:
  assumes "\<forall>rs. map_of (x_appReleases x) a = Some rs \<longrightarrow> fst ` set rels \<subseteq> rr_commit ` set rs"
    and "\<forall>imgs. x_images x = Some imgs \<longrightarrow>
           \<Union> (release_locations ` snd ` set rels) \<subseteq> is_stored_at__image_location ` set imgs"
  shows "installs_of_releases x a rels \<noteq> Inl InternalRequestError"
  using assms
proof (induction rels)
  case Nil
  then show ?case by simp
next
  case (Cons p rels)
  obtain ru rel where p: "p = (ru, rel)" by (cases p)
  have ih: "installs_of_releases x a rels \<noteq> Inl InternalRequestError"
    using Cons by simp
  show ?case
  proof (cases "map_of (x_appReleases x) a")
    case None
    then show ?thesis by (simp add: p)
  next
    case (Some rs)
    with Cons.prems(1) have "ru \<in> rr_commit ` set rs" by (simp add: p)
    then have f: "find (\<lambda>r. rr_commit r = ru) rs \<noteq> None"
      by (simp add: find_None_iff_key)
    have s: "installs_of_services (x_images x) r
               (case services rel of None \<Rightarrow> [] | Some svs \<Rightarrow> svs) \<noteq> Inl InternalRequestError"
      for r
      using Cons.prems(2)
      by (intro installs_of_services_no_internal)
         (auto simp: p release_locations_def split: option.splits)
    from f s ih show ?thesis
      by (auto simp: p Some split: option.splits sum.splits)
  qed
qed

lemma installs_of_apps_no_internal:
  assumes "\<forall>p \<in> set as. \<forall>rs. map_of (x_appReleases x) (fst p) = Some rs \<longrightarrow>
             app_commits (snd p) \<subseteq> rr_commit ` set rs"
    and "\<forall>imgs. x_images x = Some imgs \<longrightarrow>
           \<Union> ((\<lambda>p. app_locations (snd p)) ` set as) \<subseteq> is_stored_at__image_location ` set imgs"
  shows "installs_of_apps x as \<noteq> Inl InternalRequestError"
  using assms
proof (induction as)
  case Nil
  then show ?case by simp
next
  case (Cons p as)
  obtain a app where p: "p = (a, app)" by (cases p)
  have ih: "installs_of_apps x as \<noteq> Inl InternalRequestError"
    using Cons by simp
  have "installs_of_releases x a (case releases app of None \<Rightarrow> [] | Some rels \<Rightarrow> rels)
          \<noteq> Inl InternalRequestError"
  proof (rule installs_of_releases_no_internal)
    show "\<forall>rs. map_of (x_appReleases x) a = Some rs \<longrightarrow>
            fst ` set (case releases app of None \<Rightarrow> [] | Some rels \<Rightarrow> rels) \<subseteq> rr_commit ` set rs"
      using Cons.prems(1) by (auto simp: p app_commits_def split: option.splits)
    show "\<forall>imgs. x_images x = Some imgs \<longrightarrow>
            \<Union> (release_locations ` snd ` set (case releases app of None \<Rightarrow> [] | Some rels \<Rightarrow> rels))
              \<subseteq> is_stored_at__image_location ` set imgs"
      using Cons.prems(2) by (auto simp: p app_locations_def split: option.splits)
  qed
  with ih show ?case by (auto simp: p split: sum.splits)
qed

text \<open>What the cross-reference of a passed read phase holds for the entries it was built from.\<close>

lemma resolved_releases:
  assumes u: "unique_releases st"
    and r: "readPhase st us (collect es ([], [])) = Inr x"
    and m: "map_of (x_appReleases x) a = Some rs"
  shows "rr_commit ` set rs = referenced_commits es a"
    and "\<forall>r \<in> set rs. \<exists>row \<in> set (release_tbl st).
           r_id row = rr_id r \<and> r_commit row = rr_commit r \<and> r_belongs_to__application row = a"
proof -
  obtain aru locs where c: "collect es ([], []) = (aru, locs)" by (cases "collect es ([], [])")
  from r [unfolded c readPhase_Inr]
  have cnt: "\<forall>p \<in> set aru. length (get_releases st (fst p) (snd p)) = length (snd p)"
    and xr: "x_appReleases x = map (\<lambda>p. (fst p, get_releases st (fst p) (snd p))) aru"
    by auto
  from m [unfolded xr map_of_resolved] obtain cs where
    cs: "map_of aru a = Some cs" and rs: "rs = get_releases st a cs" by auto
  from cs have "(a, cs) \<in> set aru" by (rule map_of_SomeD)
  with cnt have "length (get_releases st a cs) = length cs" by force
  with releases_count [OF u] have
    sub: "set cs \<subseteq> r_commit ` {r \<in> set (release_tbl st). r_belongs_to__application r = a}"
    by simp
  have "rr_commit ` set rs = set cs"
    unfolding rs set_get_releases using sub by (auto simp: image_iff) force
  moreover have "set cs = referenced_commits es a"
    using collect_from_empty(2) [OF c, of a] cs by (simp add: commits_of_def)
  ultimately show "rr_commit ` set rs = referenced_commits es a" by simp
  show "\<forall>r \<in> set rs. \<exists>row \<in> set (release_tbl st).
           r_id row = rr_id r \<and> r_commit row = rr_commit r \<and> r_belongs_to__application row = a"
    unfolding rs set_get_releases by auto
qed

lemma resolved_apps:
  assumes "readPhase st us (collect es ([], [])) = Inr x"
  shows "fst ` set (x_appReleases x) = referenced_apps es"
proof -
  obtain aru locs where c: "collect es ([], []) = (aru, locs)" by (cases "collect es ([], [])")
  from assms [unfolded c readPhase_Inr]
  have "x_appReleases x = map (\<lambda>p. (fst p, get_releases st (fst p) (snd p))) aru" by auto
  then have "map fst (x_appReleases x) = map fst aru" by (simp add: comp_def)
  then have "fst ` set (x_appReleases x) = fst ` set aru" by (metis set_map)
  with collect_from_empty(1) [OF c] show ?thesis by simp
qed

lemma resolved_images:
  assumes u: "unique_images st"
    and r: "readPhase st us (collect es ([], [])) = Inr x"
    and m: "x_images x = Some imgs"
  shows "is_stored_at__image_location ` set imgs = referenced_locations es"
    and "set imgs \<subseteq> set (image_tbl st)"
proof -
  obtain aru locs where c: "collect es ([], []) = (aru, locs)" by (cases "collect es ([], [])")
  from r [unfolded c readPhase_Inr] m
  have ne: "locs \<noteq> []" and cnt: "length (get_images st locs) = length locs"
    and im: "imgs = get_images st locs"
    by (auto split: if_splits)
  from cnt images_count [OF u] have
    "set locs \<subseteq> is_stored_at__image_location ` set (image_tbl st)" by simp
  then have "is_stored_at__image_location ` set imgs = set locs"
    unfolding im get_images_def by (auto simp: image_iff)
  with collect_from_empty(3) [OF c]
  show "is_stored_at__image_location ` set imgs = referenced_locations es" by simp
  show "set imgs \<subseteq> set (image_tbl st)" unfolding im get_images_def by auto
qed

lemma entry_commits_referenced:
  assumes "(u, state) \<in> set es" and "apps state = Some as" and "(a, app) \<in> set as"
  shows "app_commits app \<subseteq> referenced_commits es a"
    and "app_locations app \<subseteq> referenced_locations es"
    and "a \<in> referenced_apps es"
  using assms
  by (force simp: referenced_commits_def referenced_locations_def referenced_apps_def
                  state_apps_def)+

lemma ex_store_unique:
  "unique_devices ex_store" "unique_images ex_store" "unique_releases ex_store"
  by (simp_all add: unique_devices_def unique_images_def unique_releases_def ex_store_def)

lemma ex_readPhase:
  "readPhase ex_store (uuids ex_body) (collect (entries ex_body) ([], [])) = Inr ex_xref"
  by code_simp

lemma device_step_no_internal:
  assumes ui: "unique_images st" and ur: "unique_releases st"
    and r: "readPhase st us (collect es ([], [])) = Inr x"
    and e: "e \<in> set es"
  shows "device_step x e t \<noteq> Inl InternalRequestError"
proof -
  obtain u state where ue: "e = (u, state)" by (cases e)
  have "installs_of_apps x as \<noteq> Inl InternalRequestError" if a: "apps state = Some as" for as
  proof (rule installs_of_apps_no_internal)
    show "\<forall>p \<in> set as. \<forall>rs. map_of (x_appReleases x) (fst p) = Some rs \<longrightarrow>
            app_commits (snd p) \<subseteq> rr_commit ` set rs"
    proof (intro ballI allI impI)
      fix p rs assume p: "p \<in> set as" and m: "map_of (x_appReleases x) (fst p) = Some rs"
      from p have "(fst p, snd p) \<in> set as" by simp
      from entry_commits_referenced(1) [OF e [unfolded ue] a this]
           resolved_releases(1) [OF ur r m]
      show "app_commits (snd p) \<subseteq> rr_commit ` set rs" by simp
    qed
    show "\<forall>imgs. x_images x = Some imgs \<longrightarrow>
            \<Union> ((\<lambda>p. app_locations (snd p)) ` set as) \<subseteq> is_stored_at__image_location ` set imgs"
    proof (intro allI impI)
      fix imgs assume m: "x_images x = Some imgs"
      have "app_locations (snd p) \<subseteq> referenced_locations es" if "p \<in> set as" for p
        using entry_commits_referenced(2) [OF e [unfolded ue] a, of "fst p" "snd p"] that by simp
      then have "\<Union> ((\<lambda>p. app_locations (snd p)) ` set as) \<subseteq> referenced_locations es"
        by blast
      with resolved_images(1) [OF ui r m]
      show "\<Union> ((\<lambda>p. app_locations (snd p)) ` set as) \<subseteq> is_stored_at__image_location ` set imgs"
        by simp
    qed
  qed
  then show ?thesis
    unfolding ue
    by (auto simp: device_step_def Let_def
             split: option.splits list.splits sum.splits
             dest: deviceBody_error)
qed

lemma writePhase_no_internal:
  assumes "unique_images st" and "unique_releases st"
    and "readPhase st us (collect es ([], [])) = Inr x"
    and "set es' \<subseteq> set es"
  shows "writePhase x es' t \<noteq> Inl InternalRequestError"
  using assms(4)
proof (induction es' arbitrary: t)
  case Nil
  then show ?case by simp
next
  case (Cons e es')
  then have "e \<in> set es" by simp
  from device_step_no_internal [OF assms(1-3) this]
  have d: "device_step x e t \<noteq> Inl InternalRequestError" .
  from Cons have "writePhase x es' t1 \<noteq> Inl InternalRequestError" for t1 by simp
  with d show ?case by (cases "device_step x e t") auto
qed

text \<open>
  C5. On a store whose images and releases have their keys, once the read phase has
  passed its count checks the write phase never raises the internal fault, whatever the
  batch: every release key and every service image of the body is found in the
  cross-reference. So the handler as a whole never answers with it.
\<close>

theorem internal_fault_unreachable:
  assumes "unique_images st" and "unique_releases st"
    and "readPhase st (uuids body) (collect (entries body) ([], [])) = Inr x"
  shows "writePhase x (entries body) t \<noteq> Inl InternalRequestError \<and>
         response (statePatchV3 st body) \<noteq> Inl InternalRequestError"
proof -
  have w: "writePhase x (entries body) t' \<noteq> Inl InternalRequestError" for t'
    by (rule writePhase_no_internal [OF assms]) simp
  from w [of "(st, [])"] assms(3) have "response (statePatchV3 st body) \<noteq> Inl InternalRequestError"
    by (auto simp: statePatchV3_def split: sum.splits prod.splits)
  with w show ?thesis by simp
qed

theorem internal_fault_unreachable_witness:
  "writePhase ex_xref (entries ex_body) (ex_store, []) \<noteq> Inl InternalRequestError \<and>
   response (statePatchV3 ex_store ex_body) \<noteq> Inl InternalRequestError"
  using internal_fault_unreachable [OF ex_store_unique(2) ex_store_unique(3) ex_readPhase]
  by simp

section \<open>The running release\<close>

lemma is_running_not_in_patch_fields:
  "map_of (patch_fields state) ''is_running__release'' = None"
proof -
  have "''is_running__release'' \<notin> fst ` set (patch_fields state)"
    using patch_fields_keys [of state] special_fields_not_valid(2) by auto
  then show ?thesis by (simp add: map_of_eq_None_iff)
qed

lemma running_release_found:
  assumes "map_of appReleases a = Some rs" and "map_of as a = Some app"
  shows "running_release as a appReleases =
           Inr (find (\<lambda>r. Some (rr_commit r) = release_uuid app) rs)"
  using assms by (cases rs) (simp_all add: running_release_def)

text \<open>
  C3, as the code has it. For a device entry whose \<open>apps\<close> has an entry for the device's
  own application \<open>a\<close>, in a batch that passed the read phase: the cross-reference has
  the releases of \<open>a\<close>; the patch is the allow-listed fields with \<open>is_running__release\<close>
  set to the id of the first of them whose commit is the claimed \<open>release_uuid\<close>, and
  without that field when there is none; each of them is a release of \<open>a\<close> in the store;
  with no \<open>release_uuid\<close> there is none, and with a non-empty one there always is one,
  because the read phase has already rejected a batch whose commit is not a release of
  \<open>a\<close>.
\<close>

theorem running_release_rule:
  assumes "unique_releases st"
    and "readPhase st (uuids body) (collect (entries body) ([], [])) = Inr x"
    and "(uuid, state) \<in> set (entries body)"
    and "find (\<lambda>d. dr_uuid d = uuid) (x_devices x) = Some device"
    and "dr_belongs_to__application device = a # rest"
    and "apps state = Some as"
    and "map_of as a = Some app"
  shows "\<exists>rs. map_of (x_appReleases x) a = Some rs \<and>
           deviceBody state a (x_appReleases x) =
             Inr (case find (\<lambda>r. Some (rr_commit r) = release_uuid app) rs of
                    None \<Rightarrow> patch_fields state
                  | Some r \<Rightarrow> AList.update ''is_running__release'' (JNum (int (rr_id r)))
                               (patch_fields state)) \<and>
           (\<forall>r \<in> set rs. \<exists>row \<in> set (release_tbl st).
              r_id row = rr_id r \<and> r_commit row = rr_commit r \<and>
              r_belongs_to__application row = a) \<and>
           (release_uuid app = None \<longrightarrow>
              find (\<lambda>r. Some (rr_commit r) = release_uuid app) rs = None) \<and>
           (\<forall>c. release_uuid app = Some c \<and> c \<noteq> [] \<longrightarrow>
              find (\<lambda>r. Some (rr_commit r) = release_uuid app) rs \<noteq> None)"
proof -
  from assms(7) have in_as: "(a, app) \<in> set as" by (rule map_of_SomeD)
  from entry_commits_referenced(3) [OF assms(3) assms(6) in_as] resolved_apps [OF assms(2)]
  have "a \<in> fst ` set (x_appReleases x)" by simp
  then obtain rs where rs: "map_of (x_appReleases x) a = Some rs"
    by (metis map_of_eq_None_iff not_Some_eq)
  have body: "deviceBody state a (x_appReleases x) =
                Inr (case find (\<lambda>r. Some (rr_commit r) = release_uuid app) rs of
                       None \<Rightarrow> patch_fields state
                     | Some r \<Rightarrow> AList.update ''is_running__release'' (JNum (int (rr_id r)))
                                  (patch_fields state))"
    by (simp add: deviceBody_def assms(6) running_release_found [OF rs assms(7)]
             split: option.splits)
  have none: "release_uuid app = None \<longrightarrow>
                find (\<lambda>r. Some (rr_commit r) = release_uuid app) rs = None"
    by (simp add: find_None_iff)
  have some: "find (\<lambda>r. Some (rr_commit r) = release_uuid app) rs \<noteq> None"
    if c: "release_uuid app = Some c" "c \<noteq> []" for c
  proof -
    from c have "c \<in> app_commits app" by (simp add: app_commits_def)
    with entry_commits_referenced(1) [OF assms(3) assms(6) in_as]
         resolved_releases(1) [OF assms(1) assms(2) rs]
    have "c \<in> rr_commit ` set rs" by blast
    then show ?thesis using c(1) by (auto simp: find_None_iff)
  qed
  have own: "\<forall>r \<in> set rs. \<exists>row \<in> set (release_tbl st).
               r_id row = rr_id r \<and> r_commit row = rr_commit r \<and>
               r_belongs_to__application row = a"
    by (rule resolved_releases(2) [OF assms(1) assms(2) rs])
  have some': "\<forall>c. release_uuid app = Some c \<and> c \<noteq> [] \<longrightarrow>
                 find (\<lambda>r. Some (rr_commit r) = release_uuid app) rs \<noteq> None"
    using some by simp
  show ?thesis
    by (rule exI [of _ rs]) (intro conjI rs body own none some')
qed

theorem running_release_rule_witness:
  "deviceBody (ex_state ''r1'' [(''main'', ex_service ''img-loc-1'')]) ''a1''
       (x_appReleases ex_xref) =
     Inr [(''status'', JStr ''Idle''), (''device_name'', JStr ''pi''),
          (''is_running__release'', JNum 5)] \<and>
   \<lparr>r_id = 5, r_commit = ''r1'', r_belongs_to__application = ''a1''\<rparr>
     \<in> set (release_tbl ex_store)"
proof -
  let ?state = "ex_state ''r1'' [(''main'', ex_service ''img-loc-1'')]"
  let ?app = "\<lparr>release_uuid = Some ''r1'',
               releases = Some [(''r1'', \<lparr>services = Some [(''main'', ex_service ''img-loc-1'')]\<rparr>)]\<rparr>"
  have 3: "(''d1'', ?state) \<in> set (entries ex_body)"
    by (simp add: entries_def ex_body_def List.map_filter_simps)
  have 4: "find (\<lambda>d. dr_uuid d = ''d1'') (x_devices ex_xref)
             = Some \<lparr>dr_id = 1, dr_uuid = ''d1'', dr_belongs_to__application = [''a1'']\<rparr>"
    by (simp add: ex_xref_def)
  have 5: "dr_belongs_to__application
             \<lparr>dr_id = 1, dr_uuid = ''d1'', dr_belongs_to__application = [''a1'']\<rparr> = ''a1'' # []"
    by simp
  have 6: "apps ?state = Some [(''a1'', ?app)]" by (simp add: ex_state_def)
  have 7: "map_of [(''a1'', ?app)] ''a1'' = Some ?app" by simp
  have p: "patch_fields ?state = [(''status'', JStr ''Idle''), (''device_name'', JStr ''pi'')]"
    by code_simp
  from running_release_rule [OF ex_store_unique(3) ex_readPhase 3 4 5 6 7]
  show ?thesis by (auto simp: ex_xref_def p ex_store_def)
qed

text \<open>
  C3 as stated fails: \<open>d1\<close> of application \<open>a1\<close> claims to run \<open>r2\<close>, a stored release of
  application \<open>a2\<close>. The claim is not dropped with the rest of the report going through:
  the whole batch is answered unauthorized by the read phase.
\<close>

theorem foreign_release_claim_rejected:
  "\<lparr>r_id = 6, r_commit = ''r2'', r_belongs_to__application = ''a2''\<rparr>
     \<in> set (release_tbl ex_store) \<and>
   response (statePatchV3 ex_store foreign_body) = Inl UnauthorizedError \<and>
   transactions (statePatchV3 ex_store foreign_body) = [ReadTransaction] \<and>
   issued (statePatchV3 ex_store foreign_body) = []"
  by code_simp

section \<open>Rejection by the read phase\<close>




text \<open>
  The release query of an application for which the batch names no commit throws: the
  batch is answered with that error, whatever else it names, and has no effect.
\<close>

lemma empty_commit_set_throws:
  "statePatchV3 ex_store empty_app_body =
     \<lparr>response = Inl FilterError, final = ex_store,
      transactions = [ReadTransaction], issued = []\<rparr>"
  by code_simp

section \<open>Patching a device row twice\<close>

lemma map_of_apply_body_in:
  "distinct (map fst body) \<Longrightarrow> (k, v) \<in> set body \<Longrightarrow>
     map_of (apply_body body cols) k = Some v"
proof (induction body arbitrary: cols)
  case Nil
  then show ?case by simp
next
  case (Cons p body)
  obtain k0 v0 where p: "p = (k0, v0)" by (cases p)
  have unf: "apply_body (p # body) cols = apply_body body (AList.update k0 v0 cols)"
    by (simp add: apply_body_def p)
  show ?case
  proof (cases "(k, v) = (k0, v0)")
    case True
    with Cons.prems(1) have "k \<notin> fst ` set body" by (simp add: p)
    then show ?thesis
      using True by (simp add: unf map_of_apply_body_other update_conv')
  next
    case False
    with Cons.prems have "(k, v) \<in> set body" "distinct (map fst body)" by (auto simp: p)
    then show ?thesis unfolding unf by (intro Cons.IH)
  qed
qed

lemma row_matches_apply_body:
  "distinct (map fst body) \<Longrightarrow> row_matches (apply_body body cols) body"
  by (auto simp: row_matches_def list_all_iff col_get_def map_of_apply_body_in)

lemma d_id_patch_row [simp]: "d_id (patch_row i body d) = d_id d"
  by (simp add: patch_row_def)

lemma patch_row_matches:
  "distinct (map fst body) \<Longrightarrow> d_id d = i \<Longrightarrow> row_matches (d_columns (patch_row i body d)) body"
  by (simp add: patch_row_def patch_selects_def row_matches_apply_body)

lemma patch_row_other: "d_id d \<noteq> i \<Longrightarrow> patch_row i body d = d"
  by (simp add: patch_row_def patch_selects_def)

lemma patch_row_matching: "row_matches (d_columns d) body \<Longrightarrow> patch_row i body d = d"
  by (simp add: patch_row_def patch_selects_def)

lemma d_id_apply_plan [simp]: "d_id (apply_plan ps d) = d_id d"
  unfolding apply_plan_def by (induction ps arbitrary: d) simp_all

lemma apply_plan_other: "d_id d \<notin> fst ` set ps \<Longrightarrow> apply_plan ps d = d"
  unfolding apply_plan_def by (induction ps arbitrary: d) (simp_all add: patch_row_other)

lemma apply_plan_Nil [simp]: "apply_plan [] = (\<lambda>d. d)"
  by (simp add: apply_plan_def fun_eq_iff)

lemma apply_plan_Cons: "apply_plan (p # ps) d = apply_plan ps (patch_row (fst p) (snd p) d)"
  by (simp add: apply_plan_def)

lemma apply_plan_append: "apply_plan (ps @ qs) d = apply_plan qs (apply_plan ps d)"
  by (simp add: apply_plan_def)

lemma apply_plan_matches:
  assumes "distinct (map fst ps)" and "(i, b) \<in> set ps" and "distinct (map fst b)"
    and "d_id d = i"
  shows "row_matches (d_columns (apply_plan ps d)) b"
  using assms(1,2,4)
proof (induction ps arbitrary: d)
  case Nil
  then show ?case by simp
next
  case (Cons p ps)
  show ?case
  proof (cases "p = (i, b)")
    case True
    with Cons.prems(1) have "i \<notin> fst ` set ps" by simp
    then have "apply_plan ps (patch_row i b d) = patch_row i b d"
      using Cons.prems(3) by (intro apply_plan_other) simp
    then show ?thesis
      using True Cons.prems(3) by (simp add: apply_plan_Cons patch_row_matches assms(3))
  next
    case False
    with Cons.prems have "distinct (map fst ps)" "(i, b) \<in> set ps" by auto
    from Cons.IH [OF this, of "patch_row (fst p) (snd p) d"] Cons.prems(3)
    show ?thesis by (simp add: apply_plan_Cons)
  qed
qed

lemma apply_plan_fixed:
  assumes "\<forall>p \<in> set ps. d_id d = fst p \<longrightarrow> row_matches (d_columns d) (snd p)"
  shows "apply_plan ps d = d"
  using assms
proof (induction ps)
  case Nil
  then show ?case by (simp add: apply_plan_def)
next
  case (Cons p ps)
  have "patch_row (fst p) (snd p) d = d"
    using Cons.prems by (cases "d_id d = fst p") (simp_all add: patch_row_matching patch_row_other)
  with Cons show ?case by (simp add: apply_plan_Cons)
qed

section \<open>The device patches of a write phase\<close>

lemma device_step_plan:
  assumes "device_step x e t = Inr t'"
  shows "device_tbl (fst t') = map (apply_plan (device_plan x [e])) (device_tbl (fst t))"
    and "image_tbl (fst t') = image_tbl (fst t)"
    and "release_tbl (fst t') = release_tbl (fst t)"
    and "device_patches (snd t') =
           device_patches (snd t) @
           map (\<lambda>p. (fst p, snd p, length (filter (patch_selects (fst p) (snd p))
                                                  (device_tbl (fst t)))))
               (device_plan x [e])"
proof -
  obtain uuid state where e: "e = (uuid, state)" by (cases e)
  from assms [unfolded e] obtain device a rest body where
    f: "find (\<lambda>d. dr_uuid d = uuid) (x_devices x) = Some device" and
    a: "dr_belongs_to__application device = a # rest" and
    b: "deviceBody state a (x_appReleases x) = Inr body" and
    t': "(apps state = None \<and>
            t' = (if body \<noteq> [] then patch_device (dr_id device) body t else t)) \<or>
         (\<exists>as imgInstalls. apps state = Some as \<and> installs_of_apps x as = Inr imgInstalls \<and>
            t' = install_step (image_scope x) (dr_id device) imgInstalls
                   (if body \<noteq> [] then patch_device (dr_id device) body t else t))"
    by (rule device_step_InrE)
  let ?t1 = "if body \<noteq> [] then patch_device (dr_id device) body t else t"
  have pl: "device_plan x [e] = (if body \<noteq> [] then [(dr_id device, body)] else [])"
    by (simp add: e f a b)
  have 1: "device_tbl (fst t') = device_tbl (fst ?t1)"
          "image_tbl (fst t') = image_tbl (fst ?t1)"
          "release_tbl (fst t') = release_tbl (fst ?t1)"
          "device_patches (snd t') = device_patches (snd ?t1)"
    using t' by (auto simp: install_step_frame)
  show "device_tbl (fst t') = map (apply_plan (device_plan x [e])) (device_tbl (fst t))"
    unfolding 1 pl by (simp add: patch_device_frame apply_plan_def)
  show "image_tbl (fst t') = image_tbl (fst t)"
    unfolding 1 by (simp add: patch_device_frame)
  show "release_tbl (fst t') = release_tbl (fst t)"
    unfolding 1 by (simp add: patch_device_frame)
  show "device_patches (snd t') =
           device_patches (snd t) @
           map (\<lambda>p. (fst p, snd p, length (filter (patch_selects (fst p) (snd p))
                                                  (device_tbl (fst t)))))
               (device_plan x [e])"
    unfolding 1 pl by (simp add: patch_device_frame)
qed

lemma device_plan_Cons: "device_plan x (e # es) = device_plan x [e] @ device_plan x es"
  by simp

lemma writePhase_plan:
  assumes "writePhase x es t = Inr t'"
  shows "device_tbl (fst t') = map (apply_plan (device_plan x es)) (device_tbl (fst t))"
    and "image_tbl (fst t') = image_tbl (fst t)"
    and "release_tbl (fst t') = release_tbl (fst t)"
  using assms
proof (induction es arbitrary: t)
  case Nil
  {
    case 1 then show ?case by (simp add: apply_plan_def)
  next
    case 2 then show ?case by simp
  next
    case 3 then show ?case by simp
  }
next
  case (Cons e es)
  {
    case 1
    then obtain t1 where s: "device_step x e t = Inr t1" and w: "writePhase x es t1 = Inr t'"
      by (auto split: sum.splits)
    show ?case
      unfolding Cons.IH(1) [OF w] device_step_plan(1) [OF s] device_plan_Cons [of x e es]
      by (simp add: apply_plan_append comp_def)
  next
    case 2
    then obtain t1 where s: "device_step x e t = Inr t1" and w: "writePhase x es t1 = Inr t'"
      by (auto split: sum.splits)
    show ?case using Cons.IH(2) [OF w] device_step_plan(2) [OF s] by simp
  next
    case 3
    then obtain t1 where s: "device_step x e t = Inr t1" and w: "writePhase x es t1 = Inr t'"
      by (auto split: sum.splits)
    show ?case using Cons.IH(3) [OF w] device_step_plan(3) [OF s] by simp
  }
qed

lemma device_plan_single:
  "(i, b) \<in> set (device_plan x [e]) \<longleftrightarrow>
     (\<exists>device a rest. find (\<lambda>d. dr_uuid d = fst e) (x_devices x) = Some device \<and>
        dr_belongs_to__application device = a # rest \<and>
        deviceBody (snd e) a (x_appReleases x) = Inr b \<and> b \<noteq> [] \<and> i = dr_id device)"
proof (cases "find (\<lambda>d. dr_uuid d = fst e) (x_devices x)")
  case None
  then show ?thesis by simp
next
  case (Some device)
  show ?thesis
  proof (cases "dr_belongs_to__application device")
    case Nil
    with Some show ?thesis by simp
  next
    case (Cons a rest)
    show ?thesis
    proof (cases "deviceBody (snd e) a (x_appReleases x)")
      case (Inl err)
      with Some Cons show ?thesis by simp
    next
      case (Inr body)
      with Some Cons show ?thesis by auto
    qed
  qed
qed

lemma device_plan_Nil: "device_plan x [] = []"
  by simp

declare device_plan.simps [simp del]

declare device_plan_Nil [simp]

lemma device_step_succeeds: "device_step x e t = Inr t' \<Longrightarrow> \<exists>s'. device_step x e s = Inr s'"
  by (auto simp: device_step_def Let_def
           split: prod.splits option.splits list.splits sum.splits)

lemma writePhase_succeeds: "writePhase x es t = Inr t' \<Longrightarrow> \<exists>s'. writePhase x es s = Inr s'"
proof (induction es arbitrary: t s)
  case Nil
  then show ?case by simp
next
  case (Cons e es)
  then obtain t1 where d: "device_step x e t = Inr t1" and w: "writePhase x es t1 = Inr t'"
    by (auto split: sum.splits)
  from device_step_succeeds [OF d, of s] obtain s1 where "device_step x e s = Inr s1" ..
  with Cons.IH [OF w, of s1] show ?case by simp
qed

lemma writePhase_noop:
  assumes "writePhase x es t = Inr t'"
    and "\<forall>p \<in> set (device_plan x es). \<forall>d \<in> set (device_tbl (fst t)).
           d_id d = fst p \<longrightarrow> row_matches (d_columns d) (snd p)"
  shows "device_tbl (fst t') = device_tbl (fst t) \<and>
         (\<forall>p \<in> set (device_patches (snd t')).
            p \<in> set (device_patches (snd t)) \<or> snd (snd p) = 0)"
  using assms
proof (induction es arbitrary: t)
  case Nil
  then show ?case by simp
next
  case (Cons e es)
  then obtain t1 where s: "device_step x e t = Inr t1" and w: "writePhase x es t1 = Inr t'"
    by (auto split: sum.splits)
  have m: "\<forall>p \<in> set (device_plan x [e]). \<forall>d \<in> set (device_tbl (fst t)).
             d_id d = fst p \<longrightarrow> row_matches (d_columns d) (snd p)"
    using Cons.prems(2) unfolding device_plan_Cons [of x e es] by simp
  have tb: "device_tbl (fst t1) = device_tbl (fst t)"
    unfolding device_step_plan(1) [OF s]
    by (rule map_idI) (use m in \<open>auto intro!: apply_plan_fixed\<close>)
  have z: "length (filter (patch_selects (fst p) (snd p)) (device_tbl (fst t))) = 0"
    if "p \<in> set (device_plan x [e])" for p
    using m that by (auto simp: patch_selects_def filter_empty_conv)
  have lg: "\<forall>p \<in> set (device_patches (snd t1)).
              p \<in> set (device_patches (snd t)) \<or> snd (snd p) = 0"
    unfolding device_step_plan(4) [OF s] using z by auto
  have "\<forall>p \<in> set (device_plan x es). \<forall>d \<in> set (device_tbl (fst t1)).
          d_id d = fst p \<longrightarrow> row_matches (d_columns d) (snd p)"
    using Cons.prems(2) unfolding tb device_plan_Cons [of x e es] by simp
  note ih = Cons.IH [OF w this]
  have t1: "device_tbl (fst t') = device_tbl (fst t1)"
    using ih by (rule conjunct1)
  have l1: "\<forall>p \<in> set (device_patches (snd t')).
               p \<in> set (device_patches (snd t1)) \<or> snd (snd p) = 0"
    using ih by (rule conjunct2)
  have "\<forall>p \<in> set (device_patches (snd t')).
          p \<in> set (device_patches (snd t)) \<or> snd (snd p) = 0"
  proof
    fix p assume "p \<in> set (device_patches (snd t'))"
    with l1 have "p \<in> set (device_patches (snd t1)) \<or> snd (snd p) = 0" by (rule bspec)
    then show "p \<in> set (device_patches (snd t)) \<or> snd (snd p) = 0"
    proof
      assume "p \<in> set (device_patches (snd t1))"
      with lg show ?thesis by (rule bspec)
    next
      assume "snd (snd p) = 0"
      then show ?thesis ..
    qed
  qed
  with t1 tb show ?case by simp
qed

lemma find_SomeD: "find P xs = Some y \<Longrightarrow> y \<in> set xs \<and> P y"
  by (induction xs) (auto split: if_splits)

lemma device_plan_sound:
  "(i, b) \<in> set (device_plan x es) \<Longrightarrow>
     \<exists>u state device a. (u, state) \<in> set es \<and>
        find (\<lambda>d. dr_uuid d = u) (x_devices x) = Some device \<and> dr_id device = i \<and>
        deviceBody state a (x_appReleases x) = Inr b"
proof (induction es)
  case Nil
  then show ?case by simp
next
  case (Cons e es)
  from Cons.prems have "(i, b) \<in> set (device_plan x [e]) \<or> (i, b) \<in> set (device_plan x es)"
    unfolding device_plan_Cons [of x e es] by simp
  then show ?case
  proof
    assume "(i, b) \<in> set (device_plan x [e])"
    then have "\<exists>device a. find (\<lambda>d. dr_uuid d = fst e) (x_devices x) = Some device \<and>
                 dr_id device = i \<and> deviceBody (snd e) a (x_appReleases x) = Inr b"
      unfolding device_plan_single by blast
    then show ?thesis by (metis list.set_intros(1) prod.collapse)
  next
    assume "(i, b) \<in> set (device_plan x es)"
    from Cons.IH [OF this] show ?thesis by (metis list.set_intros(2))
  qed
qed

lemma device_plan_body_distinct:
  "(i, b) \<in> set (device_plan x es) \<Longrightarrow> distinct (map fst b)"
  using device_plan_sound deviceBody_distinct by blast

lemma device_plan_distinct:
  assumes "distinct (map fst es)" and "distinct (map dr_id (x_devices x))"
  shows "distinct (map fst (device_plan x es))"
  using assms(1)
proof (induction es)
  case Nil
  then show ?case by simp
next
  case (Cons e es)
  have ih: "distinct (map fst (device_plan x es))" using Cons by simp
  have hd: "distinct (map fst (device_plan x [e]))"
    by (simp add: device_plan.simps split: option.splits list.splits sum.splits)
  have dj: "i \<notin> fst ` set (device_plan x es)" if i: "i \<in> fst ` set (device_plan x [e])" for i
  proof
    assume "i \<in> fst ` set (device_plan x es)"
    then obtain b where "(i, b) \<in> set (device_plan x es)" by auto
    from device_plan_sound [OF this] obtain u state dv where
      u: "(u, state) \<in> set es" and f: "find (\<lambda>d. dr_uuid d = u) (x_devices x) = Some dv"
      and di: "dr_id dv = i" by blast
    from i obtain b0 where "(i, b0) \<in> set (device_plan x [e])" by auto
    then obtain dv0 where f0: "find (\<lambda>d. dr_uuid d = fst e) (x_devices x) = Some dv0"
      and di0: "dr_id dv0 = i"
      unfolding device_plan_single by blast
    from find_SomeD [OF f] find_SomeD [OF f0]
    have "dv \<in> set (x_devices x)" "dv0 \<in> set (x_devices x)" "dr_uuid dv = u" "dr_uuid dv0 = fst e"
      by auto
    with di di0 assms(2) have "dv = dv0"
      by (auto simp: distinct_map inj_on_def)
    with \<open>dr_uuid dv = u\<close> \<open>dr_uuid dv0 = fst e\<close> have "fst e = u" by simp
    with u Cons.prems show False by (force simp: image_iff)
  qed
  show ?case
    unfolding device_plan_Cons [of x e es] using ih hd dj by (auto simp: image_iff)
qed

section \<open>The read phase after a write phase\<close>

lemma patch_row_identity [simp]:
  "d_uuid (patch_row i body d) = d_uuid d"
  "d_belongs_to__application (patch_row i body d) = d_belongs_to__application d"
  by (simp_all add: patch_row_def)

lemma apply_plan_identity [simp]:
  "d_uuid (apply_plan ps d) = d_uuid d"
  "d_belongs_to__application (apply_plan ps d) = d_belongs_to__application d"
  unfolding apply_plan_def by (induction ps arbitrary: d) simp_all

lemma get_devices_apply_plan:
  assumes "device_tbl st' = map (apply_plan ps) (device_tbl st)"
  shows "get_devices st' us = get_devices st us"
  unfolding get_devices_def assms by (simp add: filter_map comp_def)

lemma resolve_releases_cong:
  "release_tbl st' = release_tbl st \<Longrightarrow> resolve_releases st' aru = resolve_releases st aru"
  by (induction aru) (auto simp: get_releases_def Let_def)

lemma readPhase_cong:
  assumes "device_tbl st' = map (apply_plan ps) (device_tbl st)"
    and "image_tbl st' = image_tbl st" and "release_tbl st' = release_tbl st"
  shows "readPhase st' us c = readPhase st us c"
proof -
  have i: "get_images st' = get_images st"
    by (simp add: get_images_def assms(2) fun_eq_iff)
  show ?thesis
    unfolding readPhase_def get_devices_apply_plan [OF assms(1)]
              resolve_releases_cong [OF assms(3)] i ..
qed

section \<open>Submitting a report twice\<close>

lemma statePatchV3_success:
  "response (statePatchV3 st body) = Inr () \<longleftrightarrow>
     uuids body \<noteq> [] \<and>
     (\<exists>x st' ops. readPhase st (uuids body) (collect (entries body) ([], [])) = Inr x \<and>
        writePhase x (entries body) (st, []) = Inr (st', ops) \<and>
        statePatchV3 st body =
          \<lparr>response = Inr (), final = st',
           transactions = [ReadTransaction, WriteTransaction], issued = ops\<rparr>)"
  by (auto simp: statePatchV3_def split: sum.splits prod.splits)

lemma second_submission:
  assumes u: "unique_devices st" and ok: "response (statePatchV3 st body) = Inr ()"
  shows "response (statePatchV3 (final (statePatchV3 st body)) body) = Inr () \<and>
         device_tbl (final (statePatchV3 (final (statePatchV3 st body)) body))
           = device_tbl (final (statePatchV3 st body)) \<and>
         (\<forall>p \<in> set (device_patches (issued (statePatchV3 (final (statePatchV3 st body)) body))).
            snd (snd p) = 0)"
proof -
  let ?us = "uuids body" and ?es = "entries body"
  let ?c = "collect (entries body) ([], [])"
  from ok [unfolded statePatchV3_success] obtain x st1 ops1 where
    ne: "?us \<noteq> []" and r: "readPhase st ?us ?c = Inr x"
    and w: "writePhase x ?es (st, []) = Inr (st1, ops1)"
    and o1: "statePatchV3 st body =
               \<lparr>response = Inr (), final = st1,
                transactions = [ReadTransaction, WriteTransaction], issued = ops1\<rparr>"
    by blast
  let ?ps = "device_plan x ?es"
  have f1: "final (statePatchV3 st body) = st1" by (simp add: o1)
  from writePhase_plan [OF w]
  have tb: "device_tbl st1 = map (apply_plan ?ps) (device_tbl st)"
    and im: "image_tbl st1 = image_tbl st" and re: "release_tbl st1 = release_tbl st"
    by simp_all
  have r1: "readPhase st1 ?us ?c = Inr x"
    using readPhase_cong [OF tb im re] r by simp
  from writePhase_succeeds [OF w, of "(st1, [])"] obtain st2 ops2 where
    w2: "writePhase x ?es (st1, []) = Inr (st2, ops2)" by (metis surj_pair)
  obtain aru locs where c: "?c = (aru, locs)" by (cases ?c)
  from r [unfolded c readPhase_Inr]
  have cnt: "length (get_devices st ?us) = length ?us" and xd: "x_devices x = get_devices st ?us"
    by auto
  from cnt devices_count [OF u] have "distinct ?us" by simp
  then have des: "distinct (map fst ?es)" by (simp add: uuids_def)
  have "map dr_id (x_devices x) = map d_id (filter (\<lambda>d. d_uuid d \<in> set ?us) (device_tbl st))"
    by (simp add: xd get_devices_def comp_def)
  moreover have "distinct (map d_id (filter (\<lambda>d. d_uuid d \<in> set ?us) (device_tbl st)))"
    using u unfolding unique_devices_def by (intro distinct_map_filter) simp
  ultimately have dx: "distinct (map dr_id (x_devices x))" by simp
  have dp: "distinct (map fst ?ps)" by (rule device_plan_distinct [OF des dx])
  have m: "\<forall>p \<in> set ?ps. \<forall>d \<in> set (device_tbl (fst (st1, ([]::op list)))).
             d_id d = fst p \<longrightarrow> row_matches (d_columns d) (snd p)"
  proof (intro ballI impI)
    fix p d assume p: "p \<in> set ?ps" and d: "d \<in> set (device_tbl (fst (st1, ([]::op list))))"
      and i: "d_id d = fst p"
    from d tb obtain d0 where d0: "d = apply_plan ?ps d0" by auto
    with i have i0: "d_id d0 = fst p" by simp
    from p have p': "(fst p, snd p) \<in> set ?ps" by simp
    from apply_plan_matches [OF dp p' device_plan_body_distinct [OF p'] i0]
    show "row_matches (d_columns d) (snd p)" by (simp add: d0)
  qed
  from writePhase_noop [OF w2 m]
  have t2: "device_tbl st2 = device_tbl st1"
    and l2: "\<forall>p \<in> set (device_patches ops2). snd (snd p) = 0"
    by simp_all
  have o2: "statePatchV3 st1 body =
              \<lparr>response = Inr (), final = st2,
               transactions = [ReadTransaction, WriteTransaction], issued = ops2\<rparr>"
    using ne r1 w2 by (simp add: statePatchV3_def)
  show ?thesis unfolding f1 o2 using t2 l2 by simp
qed

text \<open>
  C6. A turn of the write loop whose patch body is empty issues no device patch and
  leaves the device table as it is. A device patch all of whose values are already in
  the rows with that id rewrites no row and leaves the store as it is. And when a report
  was accepted on a store whose devices have their keys, submitting it again on the
  resulting store is accepted again, leaves the device table as it is, and every device
  patch it issues rewrites zero rows.
\<close>

theorem field_patch_idempotence:
  "(device_step x (uuid, state) t = Inr t' \<and>
    find (\<lambda>d. dr_uuid d = uuid) (x_devices x) = Some device \<and>
    dr_belongs_to__application device = a # rest \<and>
    deviceBody state a (x_appReleases x) = Inr []
      \<longrightarrow> device_patches (snd t') = device_patches (snd t) \<and>
          device_tbl (fst t') = device_tbl (fst t)) \<and>
   ((\<forall>d \<in> set (device_tbl st0). d_id d = i \<longrightarrow> row_matches (d_columns d) b)
      \<longrightarrow> patch_device i b (st0, ops) = (st0, ops @ [DevicePatch i b 0])) \<and>
   (unique_devices st \<and> response (statePatchV3 st body) = Inr ()
      \<longrightarrow> response (statePatchV3 (final (statePatchV3 st body)) body) = Inr () \<and>
          device_tbl (final (statePatchV3 (final (statePatchV3 st body)) body))
            = device_tbl (final (statePatchV3 st body)) \<and>
          (\<forall>p \<in> set (device_patches (issued (statePatchV3 (final (statePatchV3 st body)) body))).
             snd (snd p) = 0))"
proof (intro conjI impI)
  assume h: "device_step x (uuid, state) t = Inr t' \<and>
             find (\<lambda>d. dr_uuid d = uuid) (x_devices x) = Some device \<and>
             dr_belongs_to__application device = a # rest \<and>
             deviceBody state a (x_appReleases x) = Inr []"
  then have "\<And>i b. (i, b) \<notin> set (device_plan x [(uuid, state)])"
    unfolding device_plan_single by auto
  then have e: "device_plan x [(uuid, state)] = []"
    by (cases "device_plan x [(uuid, state)]") auto
  from h have s: "device_step x (uuid, state) t = Inr t'" by simp
  show "device_patches (snd t') = device_patches (snd t)"
    using device_step_plan(4) [OF s] by (simp add: e)
  show "device_tbl (fst t') = device_tbl (fst t)"
    using device_step_plan(1) [OF s] by (simp add: e)
next
  assume m: "\<forall>d \<in> set (device_tbl st0). d_id d = i \<longrightarrow> row_matches (d_columns d) b"
  then have "map (patch_row i b) (device_tbl st0) = device_tbl st0"
    by (intro map_idI) (auto simp: patch_row_matching patch_row_other)
  moreover from m have "filter (patch_selects i b) (device_tbl st0) = []"
    by (auto simp: filter_empty_conv patch_selects_def)
  ultimately show "patch_device i b (st0, ops) = (st0, ops @ [DevicePatch i b 0])"
    by (simp add: patch_device_def)
next
  assume h: "unique_devices st \<and> response (statePatchV3 st body) = Inr ()"
  then have u: "unique_devices st" and ok: "response (statePatchV3 st body) = Inr ()"
    by simp_all
  note s = second_submission [OF u ok]
  from s show "response (statePatchV3 (final (statePatchV3 st body)) body) = Inr ()" by simp
  from s show "device_tbl (final (statePatchV3 (final (statePatchV3 st body)) body))
                 = device_tbl (final (statePatchV3 st body))" by simp
  from s show "\<forall>p \<in> set (device_patches (issued (statePatchV3 (final (statePatchV3 st body)) body))).
                 snd (snd p) = 0" by simp
qed

theorem field_patch_idempotence_witness:
  "response (statePatchV3 ex_store ex_body) = Inr () \<and>
   response (statePatchV3 (final (statePatchV3 ex_store ex_body)) ex_body) = Inr () \<and>
   device_patches (issued (statePatchV3 (final (statePatchV3 ex_store ex_body)) ex_body)) =
     [(1, [(''status'', JStr ''Idle''), (''device_name'', JStr ''pi''),
           (''is_running__release'', JNum 5)], 0)]"
proof -
  have ok: "response (statePatchV3 ex_store ex_body) = Inr ()" by code_simp
  have l: "map (\<lambda>p. (fst p, fst (snd p)))
             (device_patches (issued (statePatchV3 (final (statePatchV3 ex_store ex_body)) ex_body)))
           = [(1, [(''status'', JStr ''Idle''), (''device_name'', JStr ''pi''),
                   (''is_running__release'', JNum 5)])]"
    by code_simp
  from field_patch_idempotence [where st = ex_store and body = ex_body] ex_store_unique(1) ok
  have r: "response (statePatchV3 (final (statePatchV3 ex_store ex_body)) ex_body) = Inr ()"
    and z: "\<forall>p \<in> set (device_patches (issued (statePatchV3 (final (statePatchV3 ex_store ex_body)) ex_body))).
              snd (snd p) = 0"
    by blast+
  from l z have "device_patches (issued (statePatchV3 (final (statePatchV3 ex_store ex_body)) ex_body)) =
     [(1, [(''status'', JStr ''Idle''), (''device_name'', JStr ''pi''),
           (''is_running__release'', JNum 5)], 0)]"
    by (cases "device_patches (issued (statePatchV3 (final (statePatchV3 ex_store ex_body)) ex_body))")
       auto
  with ok r show ?thesis by simp
qed

section \<open>The image-install pass of one device\<close>










lemma set_install_keeps [simp]:
  "ii_id (set_install c r) = ii_id r" "ii_device (set_install c r) = ii_device r"
  "installs__image (set_install c r) = installs__image r"
  by (simp_all add: set_install_def)





section \<open>The differ\<close>









text \<open>
  The image of every claimed install is one of the images the read phase looked up:
  the handler calls the install pass with claims inside the scope it passes.
\<close>

lemma installs_of_services_in_scope:
  "installs_of_services (x_images x) release svs = Inr cs \<Longrightarrow>
     imageId ` set cs \<subseteq> set (image_scope x)"
proof (induction svs arbitrary: cs)
  case Nil
  then show ?case by simp
next
  case (Cons p svs)
  obtain n sv where p: "p = (n, sv)" by (cases p)
  from Cons.prems obtain imgs img others where
    i: "x_images x = Some imgs" and
    f: "find (\<lambda>i. is_stored_at__image_location i = sv_image sv) imgs = Some img" and
    o: "installs_of_services (x_images x) release svs = Inr others" and
    cs: "cs = \<lparr>imageId = i_id img, releaseId = rr_id release, status = sv_status sv,
                 downloadProgress = sv_download_progress sv\<rparr> # others"
    by (auto simp: p split: option.splits sum.splits)
  from find_SomeD [OF f] have "i_id img \<in> set (image_scope x)"
    by (simp add: image_scope_def i)
  with Cons.IH [OF o] show ?case by (simp add: cs)
qed

lemma installs_of_releases_in_scope:
  "installs_of_releases x a rels = Inr cs \<Longrightarrow> imageId ` set cs \<subseteq> set (image_scope x)"
proof (induction rels arbitrary: cs)
  case Nil
  then show ?case by simp
next
  case (Cons p rels)
  obtain c rel where p: "p = (c, rel)" by (cases p)
  from Cons.prems obtain release u v where
    "installs_of_services (x_images x) release
       (case services rel of None \<Rightarrow> [] | Some svs \<Rightarrow> svs) = Inr u" and
    v: "installs_of_releases x a rels = Inr v" and cs: "cs = u @ v"
    by (auto simp: p split: option.splits sum.splits)
  from installs_of_services_in_scope [OF this(1)] Cons.IH [OF v]
  show ?case by (simp add: cs image_Un)
qed

lemma installs_of_apps_in_scope:
  "installs_of_apps x as = Inr cs \<Longrightarrow> imageId ` set cs \<subseteq> set (image_scope x)"
proof (induction as arbitrary: cs)
  case Nil
  then show ?case by simp
next
  case (Cons p as)
  obtain a app where p: "p = (a, app)" by (cases p)
  from Cons.prems obtain u v where
    "installs_of_releases x a (case releases app of None \<Rightarrow> [] | Some rels \<Rightarrow> rels) = Inr u"
    and v: "installs_of_apps x as = Inr v" and cs: "cs = u @ v"
    by (auto simp: p split: sum.splits)
  from installs_of_releases_in_scope [OF this(1)] Cons.IH [OF v]
  show ?case by (simp add: cs image_Un)
qed


end
